theory Spec2Isabelle
  imports Main "HOL-Library.AList"
begin

section \<open>Data model\<close>

text \<open>
  The embedding follows \<^verbatim>\<open>packages/core/src/types/actions.ts\<close>, the \<^verbatim>\<open>ActionRegistry\<close>
  class and \<^verbatim>\<open>packages/core/src/executor/DAGExecutor.ts\<close>.

  Conventions.
  \<^item> A JavaScript \<^verbatim>\<open>Map\<close> is an association list in insertion order; \<^verbatim>\<open>Map.set\<close> is
    \<^const>\<open>AList.update\<close> (replace in place, or append a new key) and \<^verbatim>\<open>Map.get\<close> is
    \<^const>\<open>map_of\<close>.
  \<^item> A JavaScript \<^verbatim>\<open>Set\<close> is a list without duplicates in insertion order; \<^verbatim>\<open>Set.add\<close> is
    \<open>set_add\<close>, \<^verbatim>\<open>Set.delete\<close> is \<^const>\<open>removeAll\<close>, \<^verbatim>\<open>Set.has\<close> is membership and
    \<^verbatim>\<open>Set.size\<close> is the length.
  \<^item> An optional field is an \<open>option\<close>; \<^verbatim>\<open>undefined\<close> is \<open>None\<close>.
  \<^item> Numbers that the code only counts or compares (\<^verbatim>\<open>maxAttempts\<close>, \<^verbatim>\<open>delayMs\<close>, in-degrees)
    are integers; the arithmetic is exact.
  \<^item> Of an \<^verbatim>\<open>ActionDefinition\<close> the fields that the registry or the executor reads are kept;
    \<^verbatim>\<open>priority\<close>, \<^verbatim>\<open>searchableFields\<close>, \<^verbatim>\<open>risk\<close> and \<^verbatim>\<open>examples\<close> are read by neither. The
    schema is opaque: the registry only tests that it is there. Of an \<^verbatim>\<open>ActionCall\<close> the
    field \<^verbatim>\<open>confidence\<close> is left out, of the execution context \<^verbatim>\<open>conversationId\<close> and
    \<^verbatim>\<open>turnNumber\<close>.
  \<^item> An entry \<^verbatim>\<open>{ result, error? }\<close> of a results map is a \<open>CallOutcome\<close>; it carries an error
    when \<open>error\<close> is set. What is thrown is an \<^verbatim>\<open>Error\<close> object: \<open>ExecError\<close> for the executor,
    \<open>RegistryError\<close> for the registry, one constructor per \<^verbatim>\<open>throw\<close> of the source.
  \<^item> Handlers are user code with effects. A handler is a function of its arguments, the
    execution context and a world state \<open>'w\<close>, returning either the message of the
    \<^verbatim>\<open>Error\<close> it throws (\<open>Inl\<close>) or its result (\<open>Inr\<close>), and the new world.
    The executor state carries the world and a trace of the engine's own calls
    (handler invocations, sleeps, compensations), so that statements about which
    handler ran, how often and in which order can be made about any handlers.
  \<^item> \<^verbatim>\<open>previousResults\<close> of the context is the shared results map of \<^verbatim>\<open>execute\<close>. The engine
    writes that map only between two batches, so what a handler finds in it is what it
    held when the handler's batch started. Handlers are taken to read the map only.
\<close>

datatype schema = ZodSchema

datatype Backoff = Linear | Exponential

record RetryConfig =
  maxAttempts :: int
  backoff :: Backoff
  delayMs :: int

datatype ExecError =
    ActionNotFound string
  | NoHandler string
  | HandlerError string
  | CycleDetected

record 'v CallOutcome =
  result :: "'v option"
  error :: "ExecError option"

type_synonym 'v Results = "(string \<times> 'v CallOutcome) list"

record 'v ExecutionContext =
  appContext :: 'v
  previousResults :: "'v Results"

record ('v, 'w) ActionDefinition =
  id' :: string
  description :: string
  argsSchema :: "schema option"
  handler :: "('v \<Rightarrow> 'v ExecutionContext \<Rightarrow> 'w \<Rightarrow> (string + 'v) \<times> 'w) option"
  tags :: "string list option"
  dependencies :: "string list option"
  compensate :: "('v \<Rightarrow> 'v option \<Rightarrow> 'v ExecutionContext \<Rightarrow> 'w \<Rightarrow> (string + unit) \<times> 'w) option"
  retry :: "RetryConfig option"

record 'v ActionCall =
  callId :: string
  actionId :: string
  args :: 'v
  dependsOn :: "string list option"

definition set_add :: "'a list \<Rightarrow> 'a \<Rightarrow> 'a list" where
  "set_add s x = (if x \<in> set s then s else s @ [x])"

definition set_from :: "'a list \<Rightarrow> 'a list" where
  "set_from xs = foldl set_add [] xs"

definition orEmpty :: "'a list option \<Rightarrow> 'a list" where
  "orEmpty xs = (case xs of None \<Rightarrow> [] | Some ys \<Rightarrow> ys)"

section \<open>The action registry\<close>

record ('v, 'w) ActionRegistry =
  actions :: "(string \<times> ('v, 'w) ActionDefinition) list"
  actionsByTag :: "(string \<times> string list) list"
  dependencyGraph :: "(string \<times> string list) list"
  locked :: bool

datatype RegistryError =
    RegistryLocked
  | InvalidId
  | AlreadyRegistered string
  | MissingDescription string
  | MissingArgsSchema string
  | UnknownDependency string string
  | CircularDependency "string list"

definition emptyRegistry :: "('v, 'w) ActionRegistry" where
  "emptyRegistry = \<lparr>actions = [], actionsByTag = [], dependencyGraph = [], locked = False\<rparr>"

definition get :: "('v, 'w) ActionRegistry \<Rightarrow> string \<Rightarrow> ('v, 'w) ActionDefinition option" where
  "get r a = map_of (actions r) a"

definition lock :: "('v, 'w) ActionRegistry \<Rightarrow> ('v, 'w) ActionRegistry" where
  "lock r = r\<lparr>locked := True\<rparr>"

definition isLocked :: "('v, 'w) ActionRegistry \<Rightarrow> bool" where
  "isLocked r = locked r"

definition list' :: "('v, 'w) ActionRegistry \<Rightarrow> ('v, 'w) ActionDefinition list" where
  "list' r = map snd (actions r)"

definition getDependents :: "('v, 'w) ActionRegistry \<Rightarrow> string \<Rightarrow> string list" where
  "getDependents r a = orEmpty (map_of (dependencyGraph r) a)"

text \<open>
  \<^verbatim>\<open>getByTag\<close> and \<^verbatim>\<open>getByTags\<close> end with \<^verbatim>\<open>this.actions.get(id)!\<close>: an element of the
  returned array is what the catalog holds for the identifier, \<open>None\<close> where JavaScript
  has \<^verbatim>\<open>undefined\<close>. \<^verbatim>\<open>reduce\<close> without an initial value starts from the first set; on
  an empty array it would throw, which the length test before it excludes.
\<close>

definition getByTag :: "('v, 'w) ActionRegistry \<Rightarrow> string \<Rightarrow> ('v, 'w) ActionDefinition option list" where
  "getByTag r tag =
     (case map_of (actionsByTag r) tag of
        Some ids \<Rightarrow> map (\<lambda>i. map_of (actions r) i) ids
      | None \<Rightarrow> [])"

definition getByTags :: "('v, 'w) ActionRegistry \<Rightarrow> string list \<Rightarrow> ('v, 'w) ActionDefinition option list" where
  "getByTags r ts =
     (if ts = [] then []
      else
        (case map (\<lambda>tag. orEmpty (map_of (actionsByTag r) tag)) ts of
           [] \<Rightarrow> []
         | s # sets \<Rightarrow>
             map (\<lambda>i. map_of (actions r) i)
               (foldl (\<lambda>acc st. set_from (filter (\<lambda>x. x \<in> set st) acc)) s sets)))"

text \<open>
  The validation methods only read the registry and either return or throw; each is a
  function to \<open>RegistryError option\<close>, \<open>Some e\<close> for the exception thrown.
\<close>

definition validateLockState :: "('v, 'w) ActionRegistry \<Rightarrow> RegistryError option" where
  "validateLockState r = (if locked r then Some RegistryLocked else None)"

definition validateActionDefinition ::
    "('v, 'w) ActionRegistry \<Rightarrow> ('v, 'w) ActionDefinition \<Rightarrow> RegistryError option" where
  "validateActionDefinition r a =
     (if id' a = [] then Some InvalidId
      else if map_of (actions r) (id' a) \<noteq> None then Some (AlreadyRegistered (id' a))
      else if description a = [] then Some (MissingDescription (id' a))
      else if argsSchema a = None then Some (MissingArgsSchema (id' a))
      else None)"

fun firstUnknown :: "(string \<times> ('v, 'w) ActionDefinition) list \<Rightarrow> string \<Rightarrow> string list \<Rightarrow> RegistryError option" where
  "firstUnknown acts a [] = None"
| "firstUnknown acts a (dep # rest) =
     (if map_of acts dep = None then Some (UnknownDependency a dep)
      else firstUnknown acts a rest)"

definition validateDependencies ::
    "('v, 'w) ActionRegistry \<Rightarrow> ('v, 'w) ActionDefinition \<Rightarrow> RegistryError option" where
  "validateDependencies r a = firstUnknown (actions r) (id' a) (orEmpty (dependencies a))"

lemma card_visit: "finite D \<Longrightarrow> a \<notin> V \<Longrightarrow> card (D - insert a V) < card (insert a D - V)"
proof -
  assume f: "finite D" and a: "a \<notin> V"
  have "insert a D - V = insert a (D - insert a V)" using a by auto
  moreover have "a \<notin> D - insert a V" by simp
  moreover have "finite (D - insert a V)" using f by simp
  ultimately show ?thesis by simp
qed

lemma insert_key_absorb:
  "map_of acts dep = Some x \<Longrightarrow> insert dep (fst ` set acts) = fst ` set acts"
  by (metis fst_conv insert_absorb map_of_SomeD image_eqI)

text \<open>
  \<^verbatim>\<open>detectCircularDependencies\<close> is a depth-first walk over the dependency lists of the
  registered actions; every recursive call receives copies of \<^verbatim>\<open>visited\<close> and
  \<^verbatim>\<open>path\<close>, so the two are passed by value. \<open>detectEach\<close> is the \<^verbatim>\<open>for\<close> loop over the
  dependencies. The walk ends because a registered identifier enters \<^verbatim>\<open>visited\<close> at
  each level.
\<close>

function detectCircularDependencies ::
    "(string \<times> ('v, 'w) ActionDefinition) list \<Rightarrow> string \<Rightarrow> string list \<Rightarrow> string list \<Rightarrow> string list
      \<Rightarrow> RegistryError option"
  and detectEach ::
    "(string \<times> ('v, 'w) ActionDefinition) list \<Rightarrow> string list \<Rightarrow> string list \<Rightarrow> string list
      \<Rightarrow> RegistryError option"
where
  "detectCircularDependencies acts a deps visited path =
     (if a \<in> set visited then Some (CircularDependency (path @ [a]))
      else detectEach acts deps (set_add visited a) (path @ [a]))"
| "detectEach acts [] visited path = None"
| "detectEach acts (dep # rest) visited path =
     (case map_of acts dep of
        None \<Rightarrow> detectEach acts rest visited path
      | Some depAction \<Rightarrow>
          (case dependencies depAction of
             None \<Rightarrow> detectEach acts rest visited path
           | Some ds \<Rightarrow>
               (case detectCircularDependencies acts dep ds visited path of
                  Some e \<Rightarrow> Some e
                | None \<Rightarrow> detectEach acts rest visited path)))"
  by pat_completeness auto

termination
proof (relation "inv_image (less_than <*lex*> less_than)
     (\<lambda>x. case x of
        Inl (acts, a, ds, vis, p) \<Rightarrow> (card (insert a (fst ` set acts) - set vis), 0)
      | Inr (acts, ds, vis, p) \<Rightarrow> (card (fst ` set acts - set vis), Suc (length ds)))", goal_cases)
  case 1
  show ?case by (intro wf_inv_image wf_lex_prod wf_less_than)
next
  case (2 acts a deps visited path)
  then show ?case by (simp add: set_add_def card_visit)
next
  case 3
  show ?case by simp
next
  case 4
  show ?case by simp
next
  case (5 acts dep rest visited path x2 x2a)
  then show ?case by (simp add: insert_key_absorb)
next
  case 6
  show ?case by simp
qed

text \<open>
  \<^verbatim>\<open>indexByTags\<close> and \<^verbatim>\<open>buildDependencyGraph\<close> share one step: create the entry's set
  when the key is new, then add the identifier to the entry's set.
\<close>

definition addToIndex :: "(string \<times> string list) list \<Rightarrow> string \<Rightarrow> string \<Rightarrow> (string \<times> string list) list" where
  "addToIndex m k x =
     (case map_of m k of
        None \<Rightarrow> AList.update k (set_add [] x) (AList.update k [] m)
      | Some s \<Rightarrow> AList.update k (set_add s x) m)"

definition indexByTags ::
    "('v, 'w) ActionDefinition \<Rightarrow> ('v, 'w) ActionRegistry \<Rightarrow> ('v, 'w) ActionRegistry" where
  "indexByTags a r =
     r\<lparr>actionsByTag := foldl (\<lambda>m tag. addToIndex m tag (id' a)) (actionsByTag r) (orEmpty (tags a))\<rparr>"

definition buildDependencyGraph ::
    "('v, 'w) ActionDefinition \<Rightarrow> ('v, 'w) ActionRegistry \<Rightarrow> ('v, 'w) ActionRegistry" where
  "buildDependencyGraph a r =
     r\<lparr>dependencyGraph :=
         foldl (\<lambda>m dep. addToIndex m dep (id' a)) (dependencyGraph r) (orEmpty (dependencies a))\<rparr>"

text \<open>
  \<^verbatim>\<open>register\<close> returns the exception it throws, if any, and the registry as the call
  leaves it. Every check runs before the first write.
\<close>

definition register ::
    "('v, 'w) ActionRegistry \<Rightarrow> ('v, 'w) ActionDefinition \<Rightarrow> RegistryError option \<times> ('v, 'w) ActionRegistry" where
  "register r a =
     (case validateLockState r of
        Some e \<Rightarrow> (Some e, r)
      | None \<Rightarrow>
     (case validateActionDefinition r a of
        Some e \<Rightarrow> (Some e, r)
      | None \<Rightarrow>
     (case validateDependencies r a of
        Some e \<Rightarrow> (Some e, r)
      | None \<Rightarrow>
     (case detectCircularDependencies (actions r) (id' a) (orEmpty (dependencies a)) [] [] of
        Some e \<Rightarrow> (Some e, r)
      | None \<Rightarrow>
          (None,
           buildDependencyGraph a
             (indexByTags a (r\<lparr>actions := AList.update (id' a) a (actions r)\<rparr>)))))))"

text \<open>The registries a program can build: the fields are private.\<close>

inductive reachable :: "('v, 'w) ActionRegistry \<Rightarrow> bool" where
  reachable_empty: "reachable emptyRegistry"
| reachable_register: "reachable r \<Longrightarrow> register r a = (None, r') \<Longrightarrow> reachable r'"
| reachable_lock: "reachable r \<Longrightarrow> reachable (lock r)"

section \<open>Retry backoff\<close>

definition calculateBackoff :: "nat \<Rightarrow> RetryConfig \<Rightarrow> int" where
  "calculateBackoff attempt config =
     (if backoff config = Exponential then delayMs config * 2 ^ attempt
      else delayMs config * (int attempt + 1))"

section \<open>The executor\<close>

text \<open>
  The configuration as the constructor leaves it (\<^verbatim>\<open>enableCompensation\<close> and
  \<^verbatim>\<open>enableRetry\<close> default to true).
\<close>

record DAGExecutorConfig =
  enableCompensation :: bool
  enableRetry :: bool
  defaultRetry :: "RetryConfig option"

definition defaultConfig :: DAGExecutorConfig where
  "defaultConfig = \<lparr>enableCompensation = True, enableRetry = True, defaultRetry = None\<rparr>"

text \<open>
  Of a \<^verbatim>\<open>Plan\<close> the executor reads the calls; the conversation identifier and the turn
  number are copied into the context and never read, and are left out.
\<close>

record 'v Plan =
  calls :: "'v ActionCall list"

record 'v ExecutionResult =
  succeeded :: nat
  failed :: nat
  results :: "'v Results"

text \<open>
  The trace records what the engine calls: \<open>Invoked c prev\<close> for a call of the handler
  of call \<open>c\<close> with the shared results map holding \<open>prev\<close> at that moment, \<open>Slept d\<close> for
  \<^verbatim>\<open>sleep(d)\<close>, \<open>Compensated c\<close> for a call of the compensating handler of call \<open>c\<close>
  and \<open>CompensationFailed a msg\<close> for the \<^verbatim>\<open>console.error\<close> after it threw.
\<close>

datatype 'v Event =
    Invoked string "'v Results"
  | Slept int
  | Compensated string
  | CompensationFailed string string

record ('v, 'w) ExecState =
  world :: 'w
  trace :: "'v Event list"

subsection \<open>buildExecutionOrder\<close>

definition pushToIndex :: "(string \<times> string list) list \<Rightarrow> string \<Rightarrow> string \<Rightarrow> (string \<times> string list) list" where
  "pushToIndex m k x =
     (case map_of m k of
        None \<Rightarrow> AList.update k ([] @ [x]) (AList.update k [] m)
      | Some l \<Rightarrow> AList.update k (l @ [x]) m)"

definition actionIdToCallIds :: "'v ActionCall list \<Rightarrow> (string \<times> string list) list" where
  "actionIdToCallIds cs = foldl (\<lambda>m c. pushToIndex m (actionId c) (callId c)) [] cs"

definition callDeps :: "('v, 'w) ActionRegistry \<Rightarrow> (string \<times> string list) list \<Rightarrow> 'v ActionCall \<Rightarrow> string list" where
  "callDeps reg a2c c =
     foldl set_add (set_from (orEmpty (dependsOn c)))
       (concat (map (\<lambda>actionDep. orEmpty (map_of a2c actionDep))
          (case get reg (actionId c) of
             None \<Rightarrow> []
           | Some action \<Rightarrow> orEmpty (dependencies action))))"

text \<open>
  The initialising loop writes three maps per call; they are three folds over the same
  list here.
\<close>

definition callMapOf :: "'v ActionCall list \<Rightarrow> (string \<times> 'v ActionCall) list" where
  "callMapOf cs = foldl (\<lambda>m c. AList.update (callId c) c m) [] cs"

definition graphOf :: "('v, 'w) ActionRegistry \<Rightarrow> 'v ActionCall list \<Rightarrow> (string \<times> string list) list" where
  "graphOf reg cs =
     foldl (\<lambda>m c. AList.update (callId c) (callDeps reg (actionIdToCallIds cs) c) m) [] cs"

definition inDegreeOf :: "('v, 'w) ActionRegistry \<Rightarrow> 'v ActionCall list \<Rightarrow> (string \<times> int) list" where
  "inDegreeOf reg cs =
     foldl (\<lambda>m c. AList.update (callId c) (int (length (callDeps reg (actionIdToCallIds cs) c))) m) [] cs"

text \<open>
  One round of the \<^verbatim>\<open>while\<close> loop. The non-null assertions of the source
  (\<^verbatim>\<open>callMap.get(callId)!\<close>, \<^verbatim>\<open>graph.get(otherCallId)!\<close>, \<^verbatim>\<open>inDegree.get(otherCallId)!\<close>)
  are lookups of identifiers of \<^verbatim>\<open>remaining\<close>, which all three maps hold; the \<open>None\<close>
  branches below are never taken (lemmas \<open>callMapOf_dom\<close>, \<open>graphOf_lookup\<close> and
  \<open>inDegreeOf_lookup\<close>).
\<close>

definition collectBatch ::
    "(string \<times> 'v ActionCall) list \<Rightarrow> (string \<times> int) list \<Rightarrow> string list \<Rightarrow> 'v ActionCall list" where
  "collectBatch callMap inDegree remaining =
     List.map_filter (\<lambda>i. if map_of inDegree i = Some 0 then map_of callMap i else None) remaining"

definition decrementDependents ::
    "(string \<times> string list) list \<Rightarrow> string \<Rightarrow> string list \<Rightarrow> (string \<times> int) list \<Rightarrow> (string \<times> int) list" where
  "decrementDependents graph c remaining inDegree =
     foldl (\<lambda>d other.
         (case map_of graph other of
            None \<Rightarrow> d
          | Some deps \<Rightarrow>
              if c \<in> set deps
              then (case map_of d other of None \<Rightarrow> d | Some n \<Rightarrow> AList.update other (n - 1) d)
              else d))
       inDegree remaining"

definition processCall ::
    "(string \<times> string list) list \<Rightarrow> string list \<times> (string \<times> int) list \<Rightarrow> 'v ActionCall
      \<Rightarrow> string list \<times> (string \<times> int) list" where
  "processCall graph st c =
     (let remaining = removeAll (callId c) (fst st)
      in (remaining, decrementDependents graph (callId c) remaining (snd st)))"

lemma foldl_update_lookup:
  "map_of (foldl (\<lambda>m c. AList.update (k c) (f c) m) m0 cs) x =
     (case map_of (map (\<lambda>c. (k c, f c)) (rev cs)) x of Some v \<Rightarrow> Some v | None \<Rightarrow> map_of m0 x)"
  by (induction cs arbitrary: m0) (auto simp: update_conv map_add_def split: option.splits)

lemma callMapOf_lookup:
  "map_of (callMapOf cs) x = map_of (map (\<lambda>c. (callId c, c)) (rev cs)) x"
  by (simp add: callMapOf_def foldl_update_lookup split: option.splits)

lemma callMapOf_Some: "map_of (callMapOf cs) x = Some c \<Longrightarrow> callId c = x \<and> c \<in> set cs"
  by (auto simp: callMapOf_lookup dest!: map_of_SomeD)

lemma collectBatch_member:
  "c \<in> set (collectBatch (callMapOf cs) d rem) \<Longrightarrow> callId c \<in> set rem \<and> map_of d (callId c) = Some 0
     \<and> map_of (callMapOf cs) (callId c) = Some c"
proof -
  assume "c \<in> set (collectBatch (callMapOf cs) d rem)"
  then obtain x where x: "x \<in> set rem" "map_of d x = Some 0" "map_of (callMapOf cs) x = Some c"
    by (auto simp: collectBatch_def List.map_filter_def split: if_splits)
  then have "callId c = x" by (simp add: callMapOf_Some)
  then show ?thesis using x by simp
qed

lemma fst_processCalls:
  "fst (foldl (processCall g) st b) = filter (\<lambda>x. x \<notin> callId ` set b) (fst st)"
proof (induction b arbitrary: st)
  case Nil
  show ?case by simp
next
  case (Cons c b)
  have "filter (\<lambda>x. x \<notin> callId ` set b) (removeAll (callId c) (fst st))
      = filter (\<lambda>x. x \<notin> callId ` set (c # b)) (fst st)"
    by (auto simp: removeAll_filter_not_eq intro!: filter_cong)
  then show ?case using Cons by (simp add: processCall_def Let_def)
qed

lemma processCalls_shrinks:
  assumes "collectBatch (callMapOf cs) d rem \<noteq> []"
  shows "length (fst (foldl (processCall g) (rem, d) (collectBatch (callMapOf cs) d rem))) < length rem"
proof -
  obtain c where c: "c \<in> set (collectBatch (callMapOf cs) d rem)"
    using assms by (cases "collectBatch (callMapOf cs) d rem") auto
  then have "callId c \<in> set rem" by (simp add: collectBatch_member)
  moreover have "\<not> (callId c \<notin> callId ` set (collectBatch (callMapOf cs) d rem))"
    using c by simp
  ultimately show ?thesis
    by (simp add: fst_processCalls length_filter_less)
qed

text \<open>
  The \<^verbatim>\<open>while\<close> loop. The batch of a round is \<open>collectBatch\<close> of the round's state; the
  \<^verbatim>\<open>for\<close> loop over the batch is the fold of \<open>processCall\<close>.
\<close>

function kahnLoop ::
    "'v ActionCall list \<Rightarrow> (string \<times> string list) list \<Rightarrow> string list \<Rightarrow> (string \<times> int) list
      \<Rightarrow> 'v ActionCall list list \<Rightarrow> ExecError + 'v ActionCall list list" where
  "kahnLoop cs graph remaining inDegree batches =
     (if remaining = [] then Inr batches
      else if collectBatch (callMapOf cs) inDegree remaining = [] then Inl CycleDetected
      else
        kahnLoop cs graph
          (fst (foldl (processCall graph) (remaining, inDegree) (collectBatch (callMapOf cs) inDegree remaining)))
          (snd (foldl (processCall graph) (remaining, inDegree) (collectBatch (callMapOf cs) inDegree remaining)))
          (batches @ [collectBatch (callMapOf cs) inDegree remaining]))"
  by pat_completeness auto

termination
proof (relation "measure (\<lambda>(cs, graph, remaining, inDegree, batches). length remaining)", goal_cases)
  case 1
  show ?case by simp
next
  case (2 cs graph remaining inDegree batches)
  then show ?case by (simp add: processCalls_shrinks)
qed

declare kahnLoop.simps [simp del]

definition buildExecutionOrder ::
    "('v, 'w) ActionRegistry \<Rightarrow> 'v ActionCall list \<Rightarrow> ExecError + 'v ActionCall list list" where
  "buildExecutionOrder reg cs =
     (if cs = [] then Inr []
      else kahnLoop cs (graphOf reg cs) (set_from (map callId cs)) (inDegreeOf reg cs) [])"

subsection \<open>Running one call\<close>

definition sleep :: "int \<Rightarrow> ('v, 'w) ExecState \<Rightarrow> ('v, 'w) ExecState" where
  "sleep ms s = s\<lparr>trace := trace s @ [Slept ms]\<rparr>"

definition invokeHandler ::
    "('v \<Rightarrow> 'v ExecutionContext \<Rightarrow> 'w \<Rightarrow> (string + 'v) \<times> 'w) \<Rightarrow> 'v ActionCall \<Rightarrow> 'v ExecutionContext
      \<Rightarrow> ('v, 'w) ExecState \<Rightarrow> (string + 'v) \<times> ('v, 'w) ExecState" where
  "invokeHandler h c ctx s =
     (case h (args c) ctx (world s) of
        (r, w) \<Rightarrow> (r, \<lparr>world = w, trace = trace s @ [Invoked (callId c) (previousResults ctx)]\<rparr>))"

text \<open>
  The \<^verbatim>\<open>for\<close> loop of \<^verbatim>\<open>executeWithRetry\<close>. What it throws is \<open>Inl\<close>: \<open>Some\<close> of the
  handler's error, or \<open>None\<close> for the \<^verbatim>\<open>undefined\<close> that \<^verbatim>\<open>throw lastError!\<close> throws
  when the loop body never ran.
\<close>

function retryLoop ::
    "('v \<Rightarrow> 'v ExecutionContext \<Rightarrow> 'w \<Rightarrow> (string + 'v) \<times> 'w) \<Rightarrow> 'v ActionCall \<Rightarrow> 'v ExecutionContext
      \<Rightarrow> RetryConfig \<Rightarrow> nat \<Rightarrow> ExecError option \<Rightarrow> ('v, 'w) ExecState
      \<Rightarrow> (ExecError option + 'v) \<times> ('v, 'w) ExecState" where
  "retryLoop h c ctx retryConfig attempt lastError s =
     (if int attempt < maxAttempts retryConfig then
        (case invokeHandler h c ctx s of
           (Inr v, s') \<Rightarrow> (Inr v, s')
         | (Inl msg, s') \<Rightarrow>
             if int attempt = maxAttempts retryConfig - 1 then (Inl (Some (HandlerError msg)), s')
             else retryLoop h c ctx retryConfig (Suc attempt) (Some (HandlerError msg))
                    (sleep (calculateBackoff attempt retryConfig) s'))
      else (Inl lastError, s))"
  by pat_completeness auto

termination
proof (relation "measure (\<lambda>(h, c, ctx, retryConfig, attempt, lastError, s).
        nat (maxAttempts retryConfig - int attempt))", goal_cases)
  case 1
  show ?case by simp
next
  case (2 h c ctx retryConfig attempt lastError s x y msg)
  from 2(1) show ?case by simp
qed

declare retryLoop.simps [simp del]

definition executeWithRetry ::
    "DAGExecutorConfig \<Rightarrow> 'v ActionCall \<Rightarrow> ('v, 'w) ActionDefinition
      \<Rightarrow> ('v \<Rightarrow> 'v ExecutionContext \<Rightarrow> 'w \<Rightarrow> (string + 'v) \<times> 'w) \<Rightarrow> 'v ExecutionContext
      \<Rightarrow> ('v, 'w) ExecState \<Rightarrow> (ExecError option + 'v) \<times> ('v, 'w) ExecState" where
  "executeWithRetry config c action h ctx s =
     (case (if enableRetry config
            then (case retry action of Some rc \<Rightarrow> Some rc | None \<Rightarrow> defaultRetry config)
            else None) of
        None \<Rightarrow>
          (case invokeHandler h c ctx s of
             (Inr v, s') \<Rightarrow> (Inr v, s')
           | (Inl msg, s') \<Rightarrow> (Inl (Some (HandlerError msg)), s'))
      | Some retryConfig \<Rightarrow> retryLoop h c ctx retryConfig 0 None s)"

text \<open>
  \<open>runCall\<close> is the body of \<^verbatim>\<open>batch.map(async (call) => ...)\<close> in \<^verbatim>\<open>executeBatch\<close>.
  \<^verbatim>\<open>executeWithRetry\<close> is entered only where the handler exists, so the handler is
  passed to it.
\<close>

definition runCall ::
    "DAGExecutorConfig \<Rightarrow> ('v, 'w) ActionRegistry \<Rightarrow> 'v ExecutionContext \<Rightarrow> 'v ActionCall
      \<Rightarrow> ('v, 'w) ExecState \<Rightarrow> (string \<times> 'v CallOutcome) \<times> ('v, 'w) ExecState" where
  "runCall config reg ctx c s =
     (case get reg (actionId c) of
        None \<Rightarrow> ((callId c, \<lparr>result = None, error = Some (ActionNotFound (actionId c))\<rparr>), s)
      | Some action \<Rightarrow>
          (case handler action of
             None \<Rightarrow> ((callId c, \<lparr>result = None, error = Some (NoHandler (actionId c))\<rparr>), s)
           | Some h \<Rightarrow>
               (case executeWithRetry config c action h ctx s of
                  (Inr v, s') \<Rightarrow> ((callId c, \<lparr>result = Some v, error = None\<rparr>), s')
                | (Inl e, s') \<Rightarrow> ((callId c, \<lparr>result = None, error = e\<rparr>), s'))))"

text \<open>
  \<^verbatim>\<open>Promise.all\<close> over the batch. While the batch is in flight the engine writes no
  state of its own: the shared results map is written after \<^verbatim>\<open>executeBatch\<close> has
  returned, and the local map of \<^verbatim>\<open>executeBatch\<close> is filled from the settled
  promises in array order. The tasks are threaded through the world in array order.
\<close>

fun runAll ::
    "DAGExecutorConfig \<Rightarrow> ('v, 'w) ActionRegistry \<Rightarrow> 'v ExecutionContext \<Rightarrow> 'v ActionCall list
      \<Rightarrow> ('v, 'w) ExecState \<Rightarrow> (string \<times> 'v CallOutcome) list \<times> ('v, 'w) ExecState" where
  "runAll config reg ctx [] s = ([], s)"
| "runAll config reg ctx (c # cs) s =
     (case runCall config reg ctx c s of
        (r, s') \<Rightarrow> (case runAll config reg ctx cs s' of (rs, s'') \<Rightarrow> (r # rs, s'')))"

definition executeBatch ::
    "DAGExecutorConfig \<Rightarrow> ('v, 'w) ActionRegistry \<Rightarrow> 'v ActionCall list \<Rightarrow> 'v ExecutionContext
      \<Rightarrow> ('v, 'w) ExecState \<Rightarrow> 'v Results \<times> ('v, 'w) ExecState" where
  "executeBatch config reg batch ctx s =
     (case runAll config reg ctx batch s of
        (batchResults, s') \<Rightarrow> (foldl (\<lambda>m (k, r). AList.update k r m) [] batchResults, s'))"

subsection \<open>Compensation\<close>

fun compensateEach ::
    "('v, 'w) ActionRegistry \<Rightarrow> 'v Results \<Rightarrow> 'v ExecutionContext \<Rightarrow> 'v ActionCall list
      \<Rightarrow> ('v, 'w) ExecState \<Rightarrow> ('v, 'w) ExecState" where
  "compensateEach reg res ctx [] s = s"
| "compensateEach reg res ctx (c # cs) s =
     (case get reg (actionId c) of
        None \<Rightarrow> compensateEach reg res ctx cs s
      | Some action \<Rightarrow>
          (case compensate action of
             None \<Rightarrow> compensateEach reg res ctx cs s
           | Some undo \<Rightarrow>
               (case map_of res (callId c) of
                  None \<Rightarrow> compensateEach reg res ctx cs s
                | Some callResult \<Rightarrow>
                    if error callResult \<noteq> None then compensateEach reg res ctx cs s
                    else
                      (case undo (args c) (result callResult) ctx (world s) of
                         (Inr u, w) \<Rightarrow>
                           compensateEach reg res ctx cs
                             \<lparr>world = w, trace = trace s @ [Compensated (callId c)]\<rparr>
                       | (Inl msg, w) \<Rightarrow>
                           compensateEach reg res ctx cs
                             \<lparr>world = w,
                              trace = trace s @ [Compensated (callId c), CompensationFailed (actionId c) msg]\<rparr>))))"

definition compensate' ::
    "('v, 'w) ActionRegistry \<Rightarrow> 'v ActionCall list \<Rightarrow> 'v Results \<Rightarrow> 'v ExecutionContext
      \<Rightarrow> ('v, 'w) ExecState \<Rightarrow> ('v, 'w) ExecState" where
  "compensate' reg executedCalls res ctx s = compensateEach reg res ctx (rev executedCalls) s"

subsection \<open>execute\<close>

text \<open>
  \<open>mergeBatch\<close> is the inner \<^verbatim>\<open>for\<close> loop of \<^verbatim>\<open>execute\<close> over the entries of the batch's
  results: \<open>Inl\<close> is the \<^verbatim>\<open>return\<close> inside the loop, \<open>Inr\<close> the loop running to its end
  with the updated results, executed calls and counters. \<^verbatim>\<open>batch.find(...)!\<close> finds
  the call of the entry's key, which is always the identifier of a call of the batch.
\<close>

fun mergeBatch ::
    "DAGExecutorConfig \<Rightarrow> ('v, 'w) ActionRegistry \<Rightarrow> 'v \<Rightarrow> 'v ActionCall list \<Rightarrow> 'v Results
      \<Rightarrow> 'v Results \<times> 'v ActionCall list \<times> nat \<times> nat \<Rightarrow> ('v, 'w) ExecState
      \<Rightarrow> ('v ExecutionResult + 'v Results \<times> 'v ActionCall list \<times> nat \<times> nat) \<times> ('v, 'w) ExecState" where
  "mergeBatch config reg context batch [] acc s = (Inr acc, s)"
| "mergeBatch config reg context batch ((k, r) # rest) (res, executedCalls, succ, fl) s =
     (let res' = AList.update k r res;
          executedCalls' =
            (case find (\<lambda>c. callId c = k) batch of
               Some c \<Rightarrow> executedCalls @ [c]
             | None \<Rightarrow> executedCalls)
      in if error r \<noteq> None then
           (Inl \<lparr>succeeded = succ, failed = fl + 1, results = res'\<rparr>,
            if enableCompensation config
            then compensate' reg executedCalls' res' \<lparr>appContext = context, previousResults = res'\<rparr> s
            else s)
         else mergeBatch config reg context batch rest (res', executedCalls', succ + 1, fl) s)"

fun runBatches ::
    "DAGExecutorConfig \<Rightarrow> ('v, 'w) ActionRegistry \<Rightarrow> 'v \<Rightarrow> 'v ActionCall list list
      \<Rightarrow> 'v Results \<times> 'v ActionCall list \<times> nat \<times> nat \<Rightarrow> ('v, 'w) ExecState
      \<Rightarrow> 'v ExecutionResult \<times> ('v, 'w) ExecState" where
  "runBatches config reg context [] (res, executedCalls, succ, fl) s =
     (\<lparr>succeeded = succ, failed = fl, results = res\<rparr>, s)"
| "runBatches config reg context (batch # batches) (res, executedCalls, succ, fl) s =
     (case executeBatch config reg batch \<lparr>appContext = context, previousResults = res\<rparr> s of
        (batchResults, s') \<Rightarrow>
          (case mergeBatch config reg context batch batchResults (res, executedCalls, succ, fl) s' of
             (Inl r, s'') \<Rightarrow> (r, s'')
           | (Inr acc, s'') \<Rightarrow> runBatches config reg context batches acc s''))"

text \<open>
  \<^verbatim>\<open>execute\<close>. Inside the \<^verbatim>\<open>try\<close> only \<^verbatim>\<open>buildExecutionOrder\<close> throws (handlers are
  caught in \<^verbatim>\<open>executeBatch\<close>, compensating handlers in \<^verbatim>\<open>compensate\<close>), at a moment
  where no call has been executed; the \<^verbatim>\<open>catch\<close> block rethrows the error.
\<close>

definition execute ::
    "DAGExecutorConfig \<Rightarrow> ('v, 'w) ActionRegistry \<Rightarrow> 'v Plan \<Rightarrow> 'v \<Rightarrow> ('v, 'w) ExecState
      \<Rightarrow> (ExecError + 'v ExecutionResult) \<times> ('v, 'w) ExecState" where
  "execute config reg plan context s =
     (case buildExecutionOrder reg (calls plan) of
        Inl e \<Rightarrow>
          (let executedCalls = []; res = []
           in (Inl e,
               if enableCompensation config \<and> executedCalls \<noteq> []
               then compensate' reg executedCalls res \<lparr>appContext = context, previousResults = res\<rparr> s
               else s))
      | Inr batches \<Rightarrow>
          (case runBatches config reg context batches ([], [], 0, 0) s of
             (r, s') \<Rightarrow> (Inr r, s')))"

text \<open>The number of handler invocations for a call that a trace records.\<close>

definition invocationsOf :: "string \<Rightarrow> 'v Event list \<Rightarrow> nat" where
  "invocationsOf k tr = length (filter (\<lambda>e. case e of Invoked k' prev \<Rightarrow> k' = k | _ \<Rightarrow> False) tr)"

text \<open>
  The call-level dependency graph as \<^verbatim>\<open>buildExecutionOrder\<close> builds it: \<open>depsOf reg cs k\<close> is
  the set \<^verbatim>\<open>graph.get(k)\<close> (empty where the map has no entry), and \<open>dependsRel reg cs\<close> relates
  a call identifier to each identifier in its set.
\<close>

definition depsOf :: "('v, 'w) ActionRegistry \<Rightarrow> 'v ActionCall list \<Rightarrow> string \<Rightarrow> string list" where
  "depsOf reg cs k = orEmpty (map_of (graphOf reg cs) k)"

definition dependsRel :: "('v, 'w) ActionRegistry \<Rightarrow> 'v ActionCall list \<Rightarrow> (string \<times> string) set" where
  "dependsRel reg cs = {(k, d). d \<in> set (depsOf reg cs k)}"

text \<open>
  A cycle of the call-level dependency graph: a non-empty list of call identifiers, each
  depending on the next and the last on the first.
\<close>

fun edgesAlong :: "(string \<Rightarrow> string list) \<Rightarrow> string list \<Rightarrow> bool" where
  "edgesAlong dp [] = True"
| "edgesAlong dp [x] = True"
| "edgesAlong dp (x # y # p) = (y \<in> set (dp x) \<and> edgesAlong dp (y # p))"

definition isCycle :: "('v, 'w) ActionRegistry \<Rightarrow> 'v ActionCall list \<Rightarrow> string list \<Rightarrow> bool" where
  "isCycle reg cs p \<longleftrightarrow> p \<noteq> [] \<and> edgesAlong (depsOf reg cs) (p @ [hd p])"

text \<open>
  The calls whose compensating handler a trace records, in order; and the test of
  \<^verbatim>\<open>compensate\<close> for a call: its action is registered and declares a compensating
  handler, and the results map holds an entry without error for the call.
\<close>

definition compensatedIn :: "'v Event list \<Rightarrow> string list" where
  "compensatedIn tr = List.map_filter (\<lambda>e. case e of Compensated k \<Rightarrow> Some k | _ \<Rightarrow> None) tr"

definition compensable :: "('v, 'w) ActionRegistry \<Rightarrow> 'v Results \<Rightarrow> 'v ActionCall \<Rightarrow> bool" where
  "compensable reg res c =
     (case get reg (actionId c) of
        None \<Rightarrow> False
      | Some action \<Rightarrow>
          (case compensate action of
             None \<Rightarrow> False
           | Some undo \<Rightarrow>
               (case map_of res (callId c) of
                  None \<Rightarrow> False
                | Some callResult \<Rightarrow> error callResult = None)))"


definition succeededIn :: "'v Results \<Rightarrow> string \<Rightarrow> bool" where
  "succeededIn prev k = (case map_of prev k of None \<Rightarrow> False | Some callResult \<Rightarrow> error callResult = None)"

section \<open>Invariants used in the proofs\<close>

text \<open>
  The tag index of a registry built by \<^verbatim>\<open>register\<close>: the identifiers are distinct, and
  the set of a tag lists, in registration order, the registered actions that carry the tag.
\<close>

definition tagIndexed :: "('v, 'w) ActionRegistry \<Rightarrow> bool" where
  "tagIndexed r \<longleftrightarrow>
     distinct (map fst (actions r)) \<and>
     (\<forall>tag. orEmpty (map_of (actionsByTag r) tag) =
        map fst (filter (\<lambda>p. tag \<in> set (orEmpty (tags (snd p)))) (actions r)))"


text \<open>
  The batches of \<^verbatim>\<open>buildExecutionOrder\<close> respect the dependencies: the dependencies of a
  call of a batch all lie in \<open>D\<close> or in an earlier batch.
\<close>

fun depsOrdered :: "(string \<Rightarrow> string list) \<Rightarrow> string set \<Rightarrow> 'v ActionCall list list \<Rightarrow> bool" where
  "depsOrdered dp D [] = True"
| "depsOrdered dp D (b # bs) =
     ((\<forall>c \<in> set b. set (dp (callId c)) \<subseteq> D) \<and> depsOrdered dp (D \<union> callId ` set b) bs)"

definition batchIds :: "'v ActionCall list list \<Rightarrow> string list" where
  "batchIds bs = concat (map (map callId) bs)"

text \<open>
  The invariant of the \<^verbatim>\<open>while\<close> loop: the identifiers are split between \<^verbatim>\<open>remaining\<close> and
  the batches, the in-degree of a remaining call counts its dependencies outside the
  batches, and the batches respect the dependencies.
\<close>

definition kahnInv ::
    "('v, 'w) ActionRegistry \<Rightarrow> 'v ActionCall list \<Rightarrow> string list \<Rightarrow> (string \<times> int) list
      \<Rightarrow> 'v ActionCall list list \<Rightarrow> bool" where
  "kahnInv reg cs rem d bs \<longleftrightarrow>
     distinct rem \<and> set rem \<subseteq> callId ` set cs \<and>
     distinct (batchIds bs) \<and> set (batchIds bs) = callId ` set cs - set rem \<and>
     (\<forall>x \<in> set rem. map_of d x = Some (int (card (set (depsOf reg cs x) - set (batchIds bs))))) \<and>
     depsOrdered (depsOf reg cs) {} bs \<and>
     (\<forall>b \<in> set bs. \<forall>c \<in> set b. map_of (callMapOf cs) (callId c) = Some c)"

text \<open>
  The events a batch in flight adds to the trace: invocations of handlers of calls of the
  batch, each with the shared results map as it was when the batch started, and sleeps.
\<close>

definition handlerEvents :: "string set \<Rightarrow> 'v Results \<Rightarrow> 'v Event list \<Rightarrow> bool" where
  "handlerEvents K prev evs \<longleftrightarrow> (\<forall>e \<in> set evs. (\<exists>k \<in> K. e = Invoked k prev) \<or> (\<exists>d. e = Slept d))"

definition compensationEvents :: "'v Event list \<Rightarrow> bool" where
  "compensationEvents evs \<longleftrightarrow> (\<forall>e \<in> set evs. (\<exists>k. e = Compensated k) \<or> (\<exists>a m. e = CompensationFailed a m))"

text \<open>
  The catalog of a registry built by \<^verbatim>\<open>register\<close>: every registered action depends only on
  actions registered before it.
\<close>

definition depsBefore :: "(string \<times> ('v, 'w) ActionDefinition) list \<Rightarrow> bool" where
  "depsBefore acts \<longleftrightarrow>
     distinct (map fst acts) \<and>
     (\<forall>i < length acts. \<forall>d \<in> set (orEmpty (dependencies (snd (acts ! i)))). d \<in> set (take i (map fst acts)))"

section \<open>Scenarios\<close>

text \<open>Concrete registries, plans and handlers used to run the model.\<close>

definition base :: "(unit, unit) ActionDefinition" where
  "base = \<lparr>id' = ''base'', description = ''Base'', argsSchema = Some ZodSchema, handler = None,
     tags = None, dependencies = None, compensate = None, retry = None\<rparr>"

definition loop :: "(unit, unit) ActionDefinition" where
  "loop = \<lparr>id' = ''loop'', description = ''Loop'', argsSchema = Some ZodSchema, handler = None,
     tags = None, dependencies = Some [''loop''], compensate = None, retry = None\<rparr>"


text \<open>The two tagged actions of the registry test suite.\<close>

definition action1 :: "(unit, unit) ActionDefinition" where
  "action1 = \<lparr>id' = ''action1'', description = ''Action 1'', argsSchema = Some ZodSchema, handler = None,
     tags = Some [''tag1'', ''tag2''], dependencies = None, compensate = None, retry = None\<rparr>"

definition action2 :: "(unit, unit) ActionDefinition" where
  "action2 = \<lparr>id' = ''action2'', description = ''Action 2'', argsSchema = Some ZodSchema, handler = None,
     tags = Some [''tag1''], dependencies = None, compensate = None, retry = None\<rparr>"

definition tagged :: "(unit, unit) ActionRegistry" where
  "tagged = snd (register (snd (register emptyRegistry action1)) action2)"

text \<open>
  Handlers over a world that counts invocations, as the closures of the test suite do
  (\<^verbatim>\<open>attempts++\<close>): one that always throws, one that throws on its first two invocations,
  one that returns.
\<close>

definition failing :: "unit \<Rightarrow> unit ExecutionContext \<Rightarrow> nat \<Rightarrow> (string + unit) \<times> nat" where
  "failing a ctx w = (Inl ''Permanent failure'', Suc w)"

definition flaky :: "unit \<Rightarrow> unit ExecutionContext \<Rightarrow> nat \<Rightarrow> (string + unit) \<times> nat" where
  "flaky a ctx w = (if Suc w < 3 then Inl ''Temporary failure'' else Inr (), Suc w)"

definition returning :: "unit \<Rightarrow> unit ExecutionContext \<Rightarrow> nat \<Rightarrow> (string + unit) \<times> nat" where
  "returning a ctx w = (Inr (), Suc w)"

definition linear3 :: RetryConfig where
  "linear3 = \<lparr>maxAttempts = 3, backoff = Linear, delayMs = 10\<rparr>"

definition exponential3 :: RetryConfig where
  "exponential3 = \<lparr>maxAttempts = 3, backoff = Exponential, delayMs = 10\<rparr>"


definition ctx0 :: "unit ExecutionContext" where
  "ctx0 = \<lparr>appContext = (), previousResults = []\<rparr>"

definition state0 :: "(unit, nat) ExecState" where
  "state0 = \<lparr>world = 0, trace = []\<rparr>"

text \<open>
  Two independent actions, the first always failing, run as one batch; and the chain of
  the compensation test (\<open>step1\<close>, \<open>step2\<close> after \<open>step1\<close>, \<open>step3\<close> after \<open>step2\<close> and
  always failing), where the compensating handler of \<open>step2\<close> throws.
\<close>

definition undoReturns :: "unit \<Rightarrow> unit option \<Rightarrow> unit ExecutionContext \<Rightarrow> nat \<Rightarrow> (string + unit) \<times> nat" where
  "undoReturns a r ctx w = (Inr (), w + 10)"

definition undoThrows :: "unit \<Rightarrow> unit option \<Rightarrow> unit ExecutionContext \<Rightarrow> nat \<Rightarrow> (string + unit) \<times> nat" where
  "undoThrows a r ctx w = (Inl ''undo failed'', w + 10)"

definition step ::
    "string \<Rightarrow> string list option \<Rightarrow> (unit \<Rightarrow> unit ExecutionContext \<Rightarrow> nat \<Rightarrow> (string + unit) \<times> nat)
      \<Rightarrow> (unit \<Rightarrow> unit option \<Rightarrow> unit ExecutionContext \<Rightarrow> nat \<Rightarrow> (string + unit) \<times> nat)
      \<Rightarrow> RetryConfig option \<Rightarrow> (unit, nat) ActionDefinition" where
  "step i deps h u rt = \<lparr>id' = i, description = ''Step'', argsSchema = Some ZodSchema, handler = Some h,
     tags = None, dependencies = deps, compensate = Some u, retry = rt\<rparr>"

definition call :: "string \<Rightarrow> string \<Rightarrow> string list option \<Rightarrow> unit ActionCall" where
  "call k a deps = \<lparr>callId = k, actionId = a, args = (), dependsOn = deps\<rparr>"

definition siblings :: "(unit, nat) ActionRegistry" where
  "siblings =
     snd (register (snd (register emptyRegistry (step ''fails'' None failing undoReturns None)))
            (step ''works'' None returning undoReturns None))"

definition siblingsPlan :: "unit Plan" where
  "siblingsPlan = \<lparr>calls = [call ''c1'' ''fails'' None, call ''c2'' ''works'' None]\<rparr>"

definition chain :: "(unit, nat) ActionRegistry" where
  "chain =
     snd (register
       (snd (register (snd (register emptyRegistry (step ''step1'' None returning undoReturns None)))
          (step ''step2'' (Some [''step1'']) returning undoThrows None)))
       (step ''step3'' (Some [''step2'']) failing undoReturns None))"

definition chainPlan :: "unit Plan" where
  "chainPlan = \<lparr>calls = [call ''call1'' ''step1'' None, call ''call2'' ''step2'' (Some [''call1'']),
      call ''call3'' ''step3'' (Some [''call2''])]\<rparr>"

text \<open>The two retried actions of the executor test suite.\<close>

definition retrying :: "(unit, nat) ActionRegistry" where
  "retrying =
     snd (register (snd (register emptyRegistry (step ''failing'' None failing undoReturns (Some linear3))))
            (step ''flaky'' None flaky undoReturns (Some exponential3)))"

text \<open>A plan whose two calls name each other in \<^verbatim>\<open>dependsOn\<close>.\<close>

definition cyclicPlan :: "unit Plan" where
  "cyclicPlan = \<lparr>calls = [call ''c1'' ''fails'' (Some [''c2'']), call ''c2'' ''works'' (Some [''c1''])]\<rparr>"

text \<open>What \<^verbatim>\<open>execute\<close> returns for the chain, and the executor state it leaves.\<close>

definition chainResult :: "unit ExecutionResult" where
  "chainResult =
     \<lparr>succeeded = 2, failed = 1,
      results = [(''call1'', \<lparr>result = Some (), error = None\<rparr>),
                 (''call2'', \<lparr>result = Some (), error = None\<rparr>),
                 (''call3'', \<lparr>result = None, error = Some (HandlerError ''Permanent failure'')\<rparr>)]\<rparr>"

definition chainFinal :: "(unit, nat) ExecState" where
  "chainFinal =
     \<lparr>world = 23,
      trace = [Invoked ''call1'' [],
               Invoked ''call2'' [(''call1'', \<lparr>result = Some (), error = None\<rparr>)],
               Invoked ''call3'' [(''call1'', \<lparr>result = Some (), error = None\<rparr>),
                                  (''call2'', \<lparr>result = Some (), error = None\<rparr>)],
               Compensated ''call2'', CompensationFailed ''step2'' ''undo failed'',
               Compensated ''call1'']\<rparr>"

section \<open>Properties of the registry\<close>

lemmas reg_eval = register_def emptyRegistry_def validateLockState_def validateActionDefinition_def
  validateDependencies_def orEmpty_def indexByTags_def buildDependencyGraph_def set_add_def
  addToIndex_def lock_def get_def

lemma afterBase: "snd (register emptyRegistry base) =
   \<lparr>actions = [(''base'', base)], actionsByTag = [], dependencyGraph = [], locked = False\<rparr>"
  by (simp add: reg_eval base_def)


lemma firstUnknown_None: "firstUnknown acts a ds = None \<Longrightarrow> d \<in> set ds \<Longrightarrow> d \<in> fst ` set acts"
  by (induction ds) (auto simp: map_of_eq_None_iff split: if_splits)

lemma firstUnknown_error: "firstUnknown acts a ds = Some e \<Longrightarrow> \<exists>d. e = UnknownDependency a d"
  by (induction ds) (auto split: if_splits)



subsection \<open>Failing registrations\<close>

text \<open>
  Claim C5, as amended. Registering a definition whose only dependency is its own
  identifier, on an unlocked registry and with an otherwise valid definition, fails in
  \<^verbatim>\<open>validateDependencies\<close> with the error "depends on ... which is not registered"
  (the identifier is not yet in the catalog), before \<^verbatim>\<open>detectCircularDependencies\<close> is
  reached; the registry is unchanged. The error is not \<^verbatim>\<open>CircularDependencyError\<close>.
\<close>

theorem register_self_reference:
  assumes "\<not> locked r" and "validateActionDefinition r a = None" and "dependencies a = Some [id' a]"
  shows "register r a = (Some (UnknownDependency (id' a) (id' a)), r)"
proof -
  have "map_of (actions r) (id' a) = None"
    using assms(2) by (auto simp: validateActionDefinition_def split: if_splits)
  then have "validateDependencies r a = Some (UnknownDependency (id' a) (id' a))"
    using assms(3) by (simp add: validateDependencies_def orEmpty_def)
  then show ?thesis using assms(1,2) by (simp add: register_def validateLockState_def)
qed

text \<open>The scenario of the claim: \<open>base\<close> is registered, then \<open>loop\<close> with dependencies \<open>[loop]\<close>.\<close>

theorem register_self_reference_witness:
  "register (snd (register emptyRegistry base)) loop
     = (Some (UnknownDependency ''loop'' ''loop''), snd (register emptyRegistry base))"
proof -
  have 1: "\<not> locked (snd (register emptyRegistry base))" by (simp add: afterBase)
  have 2: "validateActionDefinition (snd (register emptyRegistry base)) loop = None"
    by (simp add: afterBase validateActionDefinition_def loop_def)
  have 3: "dependencies loop = Some [id' loop]" by (simp add: loop_def)
  show ?thesis using register_self_reference[OF 1 2 3] by (simp add: loop_def)
qed

text \<open>
  Claim C5 as stated fails: in its scenario the error thrown is the unknown-dependency
  error, and no \<^verbatim>\<open>CircularDependencyError\<close>.
\<close>

theorem register_self_reference_not_circular:
  "fst (register (snd (register emptyRegistry base)) loop) = Some (UnknownDependency ''loop'' ''loop'')
   \<and> \<not> (\<exists>cycle. fst (register (snd (register emptyRegistry base)) loop) = Some (CircularDependency cycle))"
  unfolding afterBase by (simp add: reg_eval loop_def)





subsection \<open>Tag lookup\<close>

lemma set_add_idem: "set_add (set_add s x) x = set_add s x"
  by (simp add: set_add_def)

lemma set_add_new: "x \<notin> set s \<Longrightarrow> set_add s x = s @ [x]"
  by (simp add: set_add_def)

lemma foldl_set_add_distinct: "distinct (acc @ xs) \<Longrightarrow> foldl set_add acc xs = acc @ xs"
  by (induction xs arbitrary: acc) (auto simp: set_add_def)

lemma set_from_distinct: "distinct xs \<Longrightarrow> set_from xs = xs"
  using foldl_set_add_distinct[of "[]" xs] by (simp add: set_from_def)

lemma update_new_key: "k \<notin> fst ` set al \<Longrightarrow> AList.update k v al = al @ [(k, v)]"
  by (induction al) auto

lemma addToIndex_lookup:
  "orEmpty (map_of (addToIndex m k x) k') =
     (if k' = k then set_add (orEmpty (map_of m k)) x else orEmpty (map_of m k'))"
  by (auto simp: addToIndex_def update_conv orEmpty_def split: option.splits)

lemma foldl_addToIndex_lookup:
  "orEmpty (map_of (foldl (\<lambda>m t. addToIndex m t x) m ts) tag) =
     (if tag \<in> set ts then set_add (orEmpty (map_of m tag)) x else orEmpty (map_of m tag))"
  by (induction ts arbitrary: m) (auto simp: addToIndex_lookup set_add_idem)

lemma register_success:
  assumes "register r a = (None, r')"
  shows "map_of (actions r) (id' a) = None"
    and "actions r' = actions r @ [(id' a, a)]"
    and "actionsByTag r' = foldl (\<lambda>m tag. addToIndex m tag (id' a)) (actionsByTag r) (orEmpty (tags a))"
proof -
  have v: "validateActionDefinition r a = None"
    using assms by (auto simp: register_def split: option.splits)
  then show n: "map_of (actions r) (id' a) = None"
    by (auto simp: validateActionDefinition_def split: if_splits)
  have r': "r' = buildDependencyGraph a (indexByTags a (r\<lparr>actions := AList.update (id' a) a (actions r)\<rparr>))"
    using assms by (auto simp: register_def split: option.splits)
  have "id' a \<notin> fst ` set (actions r)" using n by (simp add: map_of_eq_None_iff)
  then show "actions r' = actions r @ [(id' a, a)]"
    by (simp add: r' buildDependencyGraph_def indexByTags_def update_new_key)
  show "actionsByTag r' = foldl (\<lambda>m tag. addToIndex m tag (id' a)) (actionsByTag r) (orEmpty (tags a))"
    by (simp add: r' buildDependencyGraph_def indexByTags_def)
qed

lemma tagIndexed_register:
  assumes "tagIndexed r" and "register r a = (None, r')"
  shows "tagIndexed r'"
proof -
  note s = register_success[OF assms(2)]
  have new: "id' a \<notin> fst ` set (actions r)" using s(1) by (simp add: map_of_eq_None_iff)
  have d: "distinct (map fst (actions r'))"
    using assms(1) new by (simp add: s(2) tagIndexed_def)
  have "orEmpty (map_of (actionsByTag r') tag) =
        map fst (filter (\<lambda>p. tag \<in> set (orEmpty (tags (snd p)))) (actions r'))" for tag
  proof -
    have old: "orEmpty (map_of (actionsByTag r) tag) =
        map fst (filter (\<lambda>p. tag \<in> set (orEmpty (tags (snd p)))) (actions r))"
      using assms(1) by (simp add: tagIndexed_def)
    then have "id' a \<notin> set (orEmpty (map_of (actionsByTag r) tag))"
      using new by auto
    then show ?thesis
      by (simp add: s(2,3) foldl_addToIndex_lookup set_add_new old)
  qed
  then show ?thesis using d by (simp add: tagIndexed_def)
qed

lemma reachable_tagIndexed: "reachable r \<Longrightarrow> tagIndexed r"
proof (induction rule: reachable.induct)
  case reachable_empty
  show ?case by (simp add: tagIndexed_def emptyRegistry_def orEmpty_def)
next
  case (reachable_register r a r')
  then show ?case by (simp add: tagIndexed_register)
next
  case (reachable_lock r)
  then show ?case by (simp add: tagIndexed_def lock_def)
qed

lemma foldl_intersect:
  "distinct s \<Longrightarrow>
     foldl (\<lambda>acc st. set_from (filter (\<lambda>x. x \<in> set st) acc)) s sets
       = filter (\<lambda>x. \<forall>st \<in> set sets. x \<in> set st) s"
proof (induction sets arbitrary: s)
  case Nil
  show ?case by simp
next
  case (Cons st sets)
  have "distinct (filter (\<lambda>x. x \<in> set st) s)" using Cons.prems by simp
  then show ?case
    using Cons.IH[of "filter (\<lambda>x. x \<in> set st) s"]
    by (auto simp: set_from_distinct intro!: filter_cong)
qed

lemma map_lookup_filter:
  "distinct (map fst al) \<Longrightarrow>
     map (map_of al) (map fst (filter P al)) = map Some (map snd (filter P al))"
proof -
  assume d: "distinct (map fst al)"
  have "map_of al (fst p) = Some (snd p)" if "p \<in> set al" for p
    using map_of_is_SomeI[OF d, of "fst p" "snd p"] that by simp
  then show ?thesis by simp
qed

text \<open>
  Claim C10. On a registry built by \<^verbatim>\<open>register\<close> and \<^verbatim>\<open>lock\<close>, \<^verbatim>\<open>getByTags\<close> of the
  empty tag list is the empty array, and \<^verbatim>\<open>getByTags\<close> of a non-empty tag list is
  exactly the registered actions whose tags include every listed tag, each once, in
  registration order.
\<close>

theorem getByTags_exact:
  assumes "reachable r"
  shows "getByTags r [] = []
     \<and> (ts \<noteq> [] \<longrightarrow>
          getByTags r ts = map Some (filter (\<lambda>a. set ts \<subseteq> set (orEmpty (tags a))) (list' r)))"
proof (intro conjI impI)
  show "getByTags r [] = []" by (simp add: getByTags_def)
next
  assume "ts \<noteq> []"
  then obtain t rest where ts: "ts = t # rest" by (cases ts) auto
  have inv: "tagIndexed r" using assms by (rule reachable_tagIndexed)
  then have d: "distinct (map fst (actions r))" by (simp add: tagIndexed_def)
  have ix: "orEmpty (map_of (actionsByTag r) tag) =
        map fst (filter (\<lambda>p. tag \<in> set (orEmpty (tags (snd p)))) (actions r))" for tag
    using inv by (simp add: tagIndexed_def)
  have ds: "distinct (orEmpty (map_of (actionsByTag r) t))"
    using d by (simp add: ix distinct_map_filter)
  have mem: "fst p \<in> set (orEmpty (map_of (actionsByTag r) tag)) \<longleftrightarrow> tag \<in> set (orEmpty (tags (snd p)))"
    if "p \<in> set (actions r)" for p tag
  proof
    assume "fst p \<in> set (orEmpty (map_of (actionsByTag r) tag))"
    then obtain q where q: "q \<in> set (actions r)" "tag \<in> set (orEmpty (tags (snd q)))" "fst q = fst p"
      by (auto simp: ix)
    then have "q = p" using d that by (metis eq_key_imp_eq_value prod.collapse)
    then show "tag \<in> set (orEmpty (tags (snd p)))" using q by simp
  next
    assume "tag \<in> set (orEmpty (tags (snd p)))"
    then show "fst p \<in> set (orEmpty (map_of (actionsByTag r) tag))"
      using that by (auto simp: ix)
  qed
  have "foldl (\<lambda>acc st. set_from (filter (\<lambda>x. x \<in> set st) acc)) (orEmpty (map_of (actionsByTag r) t))
          (map (\<lambda>tag. orEmpty (map_of (actionsByTag r) tag)) rest)
        = filter (\<lambda>x. \<forall>tag \<in> set rest. x \<in> set (orEmpty (map_of (actionsByTag r) tag)))
            (orEmpty (map_of (actionsByTag r) t))"
    using foldl_intersect[OF ds] by simp
  also have "\<dots> = map fst (filter (\<lambda>p. set ts \<subseteq> set (orEmpty (tags (snd p)))) (actions r))"
    unfolding ix[of t] filter_map filter_filter o_def
    using mem by (auto simp: ts intro!: arg_cong[where f="map fst"] filter_cong)
  finally have "getByTags r ts
      = map (map_of (actions r)) (map fst (filter (\<lambda>p. set ts \<subseteq> set (orEmpty (tags (snd p)))) (actions r)))"
    by (simp add: getByTags_def ts)
  also have "\<dots> = map Some (map snd (filter (\<lambda>p. set ts \<subseteq> set (orEmpty (tags (snd p)))) (actions r)))"
    using d by (rule map_lookup_filter)
  also have "\<dots> = map Some (filter (\<lambda>a. set ts \<subseteq> set (orEmpty (tags a))) (list' r))"
    by (simp add: list'_def filter_map o_def)
  finally show "getByTags r ts = map Some (filter (\<lambda>a. set ts \<subseteq> set (orEmpty (tags a))) (list' r))" .
qed

lemma tagged_value:
  "tagged = \<lparr>actions = [(''action1'', action1), (''action2'', action2)],
      actionsByTag = [(''tag1'', [''action1'', ''action2'']), (''tag2'', [''action1''])],
      dependencyGraph = [], locked = False\<rparr>"
  by (simp add: tagged_def reg_eval action1_def action2_def)

lemma reachable_tagged: "reachable tagged"
proof -
  have 1: "register emptyRegistry action1 = (None, snd (register emptyRegistry action1))"
    by (simp add: reg_eval action1_def)
  have 2: "register (snd (register emptyRegistry action1)) action2 = (None, tagged)"
    by (simp add: tagged_def reg_eval action1_def action2_def)
  show ?thesis
    by (rule reachable_register[OF reachable_register[OF reachable_empty 1] 2])
qed

theorem getByTags_exact_witness:
  "getByTags tagged [] = []
   \<and> [''tag1'', ''tag2''] \<noteq> []
   \<and> getByTags tagged [''tag1'', ''tag2''] = [Some action1]
   \<and> getByTags tagged [''tag1''] = [Some action1, Some action2]"
  using getByTags_exact[OF reachable_tagged, of "[''tag1'', ''tag2'']"]
    getByTags_exact[OF reachable_tagged, of "[''tag1'']"]
  by (simp add: list'_def tagged_value orEmpty_def action1_def action2_def)


subsection \<open>Cycle detection at registration\<close>

lemma depsBefore_register:
  assumes "depsBefore (actions r)" and "register r a = (None, r')"
  shows "depsBefore (actions r')"
proof -
  note s = register_success[OF assms(2)]
  have new: "id' a \<notin> fst ` set (actions r)" using s(1) by (simp add: map_of_eq_None_iff)
  have vd: "validateDependencies r a = None"
    using assms(2) by (auto simp: register_def split: option.splits)
  have known: "d \<in> set (map fst (actions r))" if "d \<in> set (orEmpty (dependencies a))" for d
    using firstUnknown_None[of "actions r" "id' a" "orEmpty (dependencies a)" d] vd that
    by (simp add: validateDependencies_def)
  have d: "distinct (map fst (actions r'))"
    using assms(1) new by (simp add: s(2) depsBefore_def)
  have "d \<in> set (take i (map fst (actions r')))"
    if i: "i < length (actions r')" and dd: "d \<in> set (orEmpty (dependencies (snd (actions r' ! i))))" for i d
  proof (cases "i < length (actions r)")
    case True
    then have "d \<in> set (take i (map fst (actions r)))"
      using assms(1) dd by (simp add: s(2) depsBefore_def nth_append)
    then show ?thesis using True by (simp add: s(2))
  next
    case False
    then have "i = length (actions r)" using i by (simp add: s(2))
    then show ?thesis using dd known by (simp add: s(2))
  qed
  then show ?thesis using d by (simp add: depsBefore_def)
qed

lemma reachable_depsBefore: "reachable r \<Longrightarrow> depsBefore (actions r)"
proof (induction rule: reachable.induct)
  case reachable_empty
  show ?case by (simp add: depsBefore_def emptyRegistry_def)
next
  case (reachable_register r a r')
  then show ?case by (simp add: depsBefore_register)
next
  case (reachable_lock r)
  then show ?case by (simp add: lock_def)
qed

lemma detect_none:
  assumes db: "depsBefore acts"
  shows "(\<forall>n. n \<le> length acts \<longrightarrow> x \<notin> set visited \<longrightarrow> set visited \<inter> set (take n (map fst acts)) = {}
            \<longrightarrow> x \<notin> set (take n (map fst acts))
            \<longrightarrow> (\<forall>d \<in> set deps. d \<in> fst ` set acts \<longrightarrow> d \<in> set (take n (map fst acts)))
            \<longrightarrow> detectCircularDependencies acts x deps visited path = None)"
    and "(\<forall>n. n \<le> length acts \<longrightarrow> set visited' \<inter> set (take n (map fst acts)) = {}
            \<longrightarrow> (\<forall>d \<in> set deps'. d \<in> fst ` set acts \<longrightarrow> d \<in> set (take n (map fst acts)))
            \<longrightarrow> detectEach acts deps' visited' path' = None)"
  using db
proof (induction acts x deps visited path and acts deps' visited' path'
    rule: detectCircularDependencies_detectEach.induct)
  case (1 acts a deps visited path)
  show ?case
  proof (intro allI impI)
    fix n
    assume n: "n \<le> length acts" and nv: "a \<notin> set visited"
      and dj: "set visited \<inter> set (take n (map fst acts)) = {}"
      and an: "a \<notin> set (take n (map fst acts))"
      and dd: "\<forall>d \<in> set deps. d \<in> fst ` set acts \<longrightarrow> d \<in> set (take n (map fst acts))"
    have "set (set_add visited a) \<inter> set (take n (map fst acts)) = {}"
      using dj an by (auto simp: set_add_def)
    then have "detectEach acts deps (set_add visited a) (path @ [a]) = None"
      using "1.IH"[OF nv "1.prems"] n dd by blast
    then show "detectCircularDependencies acts a deps visited path = None" using nv by simp
  qed
next
  case (2 acts visited path)
  show ?case by simp
next
  case (3 acts dep rest visited path)
  show ?case
  proof (intro allI impI)
    fix n
    assume n: "n \<le> length acts"
      and dj: "set visited \<inter> set (take n (map fst acts)) = {}"
      and dd: "\<forall>d \<in> set (dep # rest). d \<in> fst ` set acts \<longrightarrow> d \<in> set (take n (map fst acts))"
    have rest: "\<forall>d \<in> set rest. d \<in> fst ` set acts \<longrightarrow> d \<in> set (take n (map fst acts))"
      using dd by simp
    show "detectEach acts (dep # rest) visited path = None"
    proof (cases "map_of acts dep")
      case None
      then show ?thesis using "3.IH"(1)[OF None "3.prems"] n dj rest by simp
    next
      case (Some depAction)
      show ?thesis
      proof (cases "dependencies depAction")
        case None
        then show ?thesis using "3.IH"(2)[OF Some None "3.prems"] n dj rest Some by simp
      next
        case ds: (Some ds)
        have dist: "distinct (map fst acts)" using "3.prems" by (simp add: depsBefore_def)
        have "(dep, depAction) \<in> set acts" using Some by (rule map_of_SomeD)
        then have "dep \<in> fst ` set acts" by force
        then have "dep \<in> set (take n (map fst acts))" using dd by simp
        then obtain i where i: "i < n" "i < length acts" "map fst acts ! i = dep"
          using n by (auto simp: in_set_conv_nth)
        then have "fst (acts ! i) = dep" by simp
        then have "map_of acts dep = Some (snd (acts ! i))"
          using map_of_is_SomeI[OF dist, of dep "snd (acts ! i)"] i(2) nth_mem[of i acts]
          by (metis prod.collapse)
        then have da: "depAction = snd (acts ! i)" using Some by simp
        have sub: "set (take i (map fst acts)) \<subseteq> set (take n (map fst acts))"
          using i(1) by (meson less_imp_le set_take_subset_set_take)
        have c1: "dep \<notin> set visited" using dj \<open>dep \<in> set (take n (map fst acts))\<close> by auto
        have c2: "set visited \<inter> set (take i (map fst acts)) = {}" using dj sub by auto
        have c3: "dep \<notin> set (take i (map fst acts))"
        proof
          assume "dep \<in> set (take i (map fst acts))"
          then obtain j where j: "j < i" "map fst acts ! j = dep"
            using i(2) by (auto simp: in_set_conv_nth)
          then have "map fst acts ! j = map fst acts ! i" using i(3) by simp
          moreover have "j < length (map fst acts)" "i < length (map fst acts)" using j(1) i(2) by simp_all
          ultimately have "j = i" using nth_eq_iff_index_eq[OF dist] by blast
          then show False using j(1) by simp
        qed
        have c4: "\<forall>d \<in> set ds. d \<in> fst ` set acts \<longrightarrow> d \<in> set (take i (map fst acts))"
          using "3.prems" i(2) ds da by (auto simp: depsBefore_def orEmpty_def)
        have c0: "i \<le> length acts" using i(2) by simp
        have "detectCircularDependencies acts dep ds visited path = None"
          using "3.IH"(3)[OF Some ds "3.prems"] c0 c1 c2 c3 c4 by blast
        then show ?thesis
          using "3.IH"(4)[OF Some ds _ "3.prems"] n dj rest Some ds by simp
      qed
    qed
  qed
qed

text \<open>
  On a registry built by \<^verbatim>\<open>register\<close> and \<^verbatim>\<open>lock\<close>, \<^verbatim>\<open>register\<close> never throws
  \<^verbatim>\<open>CircularDependencyError\<close>: once \<^verbatim>\<open>validateDependencies\<close> has passed, every dependency
  was registered earlier and depends only on actions registered before it, so the walk
  of \<^verbatim>\<open>detectCircularDependencies\<close> never meets an identifier twice.
\<close>

lemma register_never_circular:
  assumes "reachable r"
  shows "fst (register r a) \<noteq> Some (CircularDependency p)"
proof (cases "validateLockState r = None \<and> validateActionDefinition r a = None \<and> validateDependencies r a = None")
  case False
  then show ?thesis
    by (auto simp: register_def validateLockState_def validateActionDefinition_def validateDependencies_def
        split: option.splits if_splits dest: firstUnknown_error)
next
  case True
  have db: "depsBefore (actions r)" using assms by (rule reachable_depsBefore)
  have new: "id' a \<notin> fst ` set (actions r)"
    using True by (auto simp: validateActionDefinition_def map_of_eq_None_iff split: if_splits)
  have known: "\<forall>d \<in> set (orEmpty (dependencies a)). d \<in> fst ` set (actions r) \<longrightarrow>
      d \<in> set (take (length (actions r)) (map fst (actions r)))" by simp
  have e: "set [] \<inter> set (take (length (actions r)) (map fst (actions r))) = {}"
    and v: "id' a \<notin> set []" and l: "length (actions r) \<le> length (actions r)"
    and n: "id' a \<notin> set (take (length (actions r)) (map fst (actions r)))"
    using new by simp_all
  have "detectCircularDependencies (actions r) (id' a) (orEmpty (dependencies a)) [] [] = None"
    using detect_none(1)[OF db, of "id' a" "[]" "orEmpty (dependencies a)" "[]"] l v e n known by blast
  then show ?thesis using True by (simp add: register_def)
qed


section \<open>Properties of the retry loop\<close>




lemma retrying_value:
  "retrying = \<lparr>actions = [(''failing'', step ''failing'' None failing undoReturns (Some linear3)),
        (''flaky'', step ''flaky'' None flaky undoReturns (Some exponential3))],
      actionsByTag = [], dependencyGraph = [], locked = False\<rparr>"
  by (simp add: retrying_def reg_eval step_def)

text \<open>
  Claim C4. Retry is enabled and the policy in effect for the action (its own, or the
  default of the executor) has \<^verbatim>\<open>maxAttempts = 3\<close>; the first two invocations of the
  handler fail. If the third fails too, the handler is invoked exactly three times and
  the entry recorded for the call is the failure of the third invocation; if the third
  returns, the handler is invoked exactly three times and the entry recorded is its
  value. Between the invocations the loop sleeps the backoff delays.
\<close>

theorem retry_three_attempts:
  assumes "enableRetry config"
    and "(case retry action of Some rc \<Rightarrow> Some rc | None \<Rightarrow> defaultRetry config) = Some retryConfig"
    and "maxAttempts retryConfig = 3"
    and "get reg (actionId c) = Some action" and "handler action = Some h"
    and "h (args c) ctx (world s) = (Inl m1, w1)" and "h (args c) ctx w1 = (Inl m2, w2)"
  shows "(h (args c) ctx w2 = (Inl m3, w3) \<longrightarrow>
           runCall config reg ctx c s =
             ((callId c, \<lparr>result = None, error = Some (HandlerError m3)\<rparr>),
              \<lparr>world = w3,
               trace = trace s @
                 [Invoked (callId c) (previousResults ctx), Slept (calculateBackoff 0 retryConfig),
                  Invoked (callId c) (previousResults ctx), Slept (calculateBackoff 1 retryConfig),
                  Invoked (callId c) (previousResults ctx)]\<rparr>)
           \<and> invocationsOf (callId c) (trace (snd (runCall config reg ctx c s)))
               = invocationsOf (callId c) (trace s) + 3)
       \<and> (h (args c) ctx w2 = (Inr v, w3) \<longrightarrow>
           runCall config reg ctx c s =
             ((callId c, \<lparr>result = Some v, error = None\<rparr>),
              \<lparr>world = w3,
               trace = trace s @
                 [Invoked (callId c) (previousResults ctx), Slept (calculateBackoff 0 retryConfig),
                  Invoked (callId c) (previousResults ctx), Slept (calculateBackoff 1 retryConfig),
                  Invoked (callId c) (previousResults ctx)]\<rparr>)
           \<and> invocationsOf (callId c) (trace (snd (runCall config reg ctx c s)))
               = invocationsOf (callId c) (trace s) + 3)"
proof -
  have e: "runCall config reg ctx c s =
      (case retryLoop h c ctx retryConfig 0 None s of
         (Inr v, s') \<Rightarrow> ((callId c, \<lparr>result = Some v, error = None\<rparr>), s')
       | (Inl e, s') \<Rightarrow> ((callId c, \<lparr>result = None, error = e\<rparr>), s'))"
    using assms(1,2,4,5) by (simp add: runCall_def executeWithRetry_def)
  have l: "retryLoop h c ctx retryConfig 0 None s =
      (case h (args c) ctx w2 of
         (Inr v, w) \<Rightarrow> (Inr v, \<lparr>world = w, trace = trace s @
                 [Invoked (callId c) (previousResults ctx), Slept (calculateBackoff 0 retryConfig),
                  Invoked (callId c) (previousResults ctx), Slept (calculateBackoff 1 retryConfig),
                  Invoked (callId c) (previousResults ctx)]\<rparr>)
       | (Inl m, w) \<Rightarrow> (Inl (Some (HandlerError m)), \<lparr>world = w, trace = trace s @
                 [Invoked (callId c) (previousResults ctx), Slept (calculateBackoff 0 retryConfig),
                  Invoked (callId c) (previousResults ctx), Slept (calculateBackoff 1 retryConfig),
                  Invoked (callId c) (previousResults ctx)]\<rparr>))"
    apply (subst retryLoop.simps)
    apply (simp add: assms(3,6) invokeHandler_def sleep_def)
    apply (subst retryLoop.simps)
    apply (simp add: assms(3,7) invokeHandler_def sleep_def)
    apply (subst retryLoop.simps)
    apply (simp add: assms(3) invokeHandler_def split: prod.splits sum.splits)
    done
  show ?thesis
    by (simp add: e l invocationsOf_def)
qed

theorem retry_three_attempts_witness:
  "runCall defaultConfig retrying ctx0 (call ''call1'' ''failing'' None) state0 =
     ((''call1'', \<lparr>result = None, error = Some (HandlerError ''Permanent failure'')\<rparr>),
      \<lparr>world = 3,
       trace = [Invoked ''call1'' [], Slept 10, Invoked ''call1'' [], Slept 20, Invoked ''call1'' []]\<rparr>)
   \<and> runCall defaultConfig retrying ctx0 (call ''call1'' ''flaky'' None) state0 =
     ((''call1'', \<lparr>result = Some (), error = None\<rparr>),
      \<lparr>world = 3,
       trace = [Invoked ''call1'' [], Slept 10, Invoked ''call1'' [], Slept 20, Invoked ''call1'' []]\<rparr>)"
proof -
  have a: "runCall defaultConfig retrying ctx0 (call ''call1'' ''failing'' None) state0 =
     ((''call1'', \<lparr>result = None, error = Some (HandlerError ''Permanent failure'')\<rparr>),
      \<lparr>world = 3,
       trace = [Invoked ''call1'' [], Slept 10, Invoked ''call1'' [], Slept 20, Invoked ''call1'' []]\<rparr>)"
    using retry_three_attempts[of defaultConfig "step ''failing'' None failing undoReturns (Some linear3)"
        linear3 retrying "call ''call1'' ''failing'' None" failing ctx0 state0
        "''Permanent failure''" 1 "''Permanent failure''" 2 "''Permanent failure''" 3 "()"]
    by (simp add: defaultConfig_def step_def linear3_def retrying_value get_def call_def failing_def
        state0_def ctx0_def calculateBackoff_def)
  have b: "runCall defaultConfig retrying ctx0 (call ''call1'' ''flaky'' None) state0 =
     ((''call1'', \<lparr>result = Some (), error = None\<rparr>),
      \<lparr>world = 3,
       trace = [Invoked ''call1'' [], Slept 10, Invoked ''call1'' [], Slept 20, Invoked ''call1'' []]\<rparr>)"
    using retry_three_attempts[of defaultConfig "step ''flaky'' None flaky undoReturns (Some exponential3)"
        exponential3 retrying "call ''call1'' ''flaky'' None" flaky ctx0 state0
        "''Temporary failure''" 1 "''Temporary failure''" 2 "''x''" 3 "()"]
    by (simp add: defaultConfig_def step_def exponential3_def retrying_value get_def call_def flaky_def
        state0_def ctx0_def calculateBackoff_def)
  show ?thesis using a b by simp
qed


section \<open>Properties of buildExecutionOrder\<close>


subsection \<open>The maps of the initialising loop\<close>

lemma callMapOf_dom: "x \<in> callId ` set cs \<Longrightarrow> \<exists>c. map_of (callMapOf cs) x = Some c"
proof -
  assume "x \<in> callId ` set cs"
  then have "x \<in> fst ` set (map (\<lambda>c. (callId c, c)) (rev cs))" by force
  then have "map_of (map (\<lambda>c. (callId c, c)) (rev cs)) x \<noteq> None"
    by (simp only: map_of_eq_None_iff not_not)
  then show ?thesis by (auto simp: callMapOf_lookup)
qed

lemma callMapOf_distinct:
  "distinct (map callId cs) \<Longrightarrow> c \<in> set cs \<Longrightarrow> map_of (callMapOf cs) (callId c) = Some c"
proof -
  assume d: "distinct (map callId cs)" and c: "c \<in> set cs"
  have "distinct (map fst (map (\<lambda>c. (callId c, c)) (rev cs)))"
    using d by (simp add: o_def rev_map[symmetric])
  moreover have "(callId c, c) \<in> set (map (\<lambda>c. (callId c, c)) (rev cs))" using c by auto
  ultimately show ?thesis by (simp only: callMapOf_lookup map_of_is_SomeI)
qed

lemma map_of_map_value:
  "map_of (map (\<lambda>c. (k c, f c)) xs) x = map_option f (map_of (map (\<lambda>c. (k c, c)) xs) x)"
  by (induction xs) auto

lemma graphOf_lookup:
  "map_of (graphOf reg cs) x = map_option (callDeps reg (actionIdToCallIds cs)) (map_of (callMapOf cs) x)"
  unfolding graphOf_def callMapOf_def foldl_update_lookup
  by (subst map_of_map_value) (simp split: option.splits)

lemma inDegreeOf_lookup:
  "map_of (inDegreeOf reg cs) x =
     map_option (\<lambda>c. int (length (callDeps reg (actionIdToCallIds cs) c))) (map_of (callMapOf cs) x)"
  unfolding inDegreeOf_def callMapOf_def foldl_update_lookup
  by (subst map_of_map_value) (simp split: option.splits)

lemma distinct_foldl_set_add: "distinct acc \<Longrightarrow> distinct (foldl set_add acc xs)"
  by (induction xs arbitrary: acc) (auto simp: set_add_def)

lemma set_foldl_set_add: "set (foldl set_add acc xs) = set acc \<union> set xs"
  by (induction xs arbitrary: acc) (auto simp: set_add_def)

lemma distinct_set_from: "distinct (set_from xs)"
  by (simp add: set_from_def distinct_foldl_set_add)

lemma set_set_from: "set (set_from xs) = set xs"
  by (simp add: set_from_def set_foldl_set_add)

lemma distinct_callDeps: "distinct (callDeps reg a2c c)"
  by (simp add: callDeps_def distinct_foldl_set_add distinct_set_from)

lemma distinct_depsOf: "distinct (depsOf reg cs x)"
  by (cases "map_of (callMapOf cs) x") (simp_all add: depsOf_def graphOf_lookup orEmpty_def distinct_callDeps)

lemma inDegreeOf_depsOf:
  "x \<in> callId ` set cs \<Longrightarrow> map_of (inDegreeOf reg cs) x = Some (int (card (set (depsOf reg cs x))))"
proof -
  assume "x \<in> callId ` set cs"
  then obtain c where c: "map_of (callMapOf cs) x = Some c" using callMapOf_dom by blast
  have "card (set (callDeps reg (actionIdToCallIds cs) c)) = length (callDeps reg (actionIdToCallIds cs) c)"
    by (simp add: distinct_card distinct_callDeps)
  then show ?thesis by (simp add: inDegreeOf_lookup depsOf_def graphOf_lookup c orEmpty_def)
qed

lemma pushToIndex_lookup:
  "orEmpty (map_of (pushToIndex m k x) k') =
     (if k' = k then orEmpty (map_of m k) @ [x] else orEmpty (map_of m k'))"
  by (cases "map_of m k") (auto simp: pushToIndex_def update_conv orEmpty_def)

lemma foldl_pushToIndex_lookup:
  "orEmpty (map_of (foldl (\<lambda>m c. pushToIndex m (actionId c) (callId c)) m cs) a) =
     orEmpty (map_of m a) @ map callId (filter (\<lambda>c. actionId c = a) cs)"
  by (induction cs arbitrary: m) (auto simp: pushToIndex_lookup)

lemma actionIdToCallIds_lookup:
  "orEmpty (map_of (actionIdToCallIds cs) a) = map callId (filter (\<lambda>c. actionId c = a) cs)"
  using foldl_pushToIndex_lookup[of "[]" cs a] by (simp add: actionIdToCallIds_def) (simp add: orEmpty_def)

text \<open>
  The graph in the words of the algorithm's description: for a plan with distinct call
  identifiers, a call depends on the identifiers of its \<^verbatim>\<open>dependsOn\<close> list and on every call
  of the plan that invokes an action among the registered dependencies of its own action.
\<close>

lemma depsOf_set:
  assumes "distinct (map callId cs)" and "c \<in> set cs"
  shows "set (depsOf reg cs (callId c)) =
           set (orEmpty (dependsOn c))
           \<union> {callId c' | c'. c' \<in> set cs \<and>
                 actionId c' \<in> set (case get reg (actionId c) of
                                       None \<Rightarrow> []
                                     | Some action \<Rightarrow> orEmpty (dependencies action))}"
proof -
  have "depsOf reg cs (callId c) = callDeps reg (actionIdToCallIds cs) c"
    by (simp add: depsOf_def graphOf_lookup callMapOf_distinct[OF assms] orEmpty_def)
  then show ?thesis
    by (auto simp: callDeps_def set_foldl_set_add set_set_from actionIdToCallIds_lookup)
qed

lemma depsOf_nonempty: "d \<in> set (depsOf reg cs k) \<Longrightarrow> k \<in> callId ` set cs"
proof -
  assume "d \<in> set (depsOf reg cs k)"
  then obtain c where "map_of (callMapOf cs) k = Some c"
    by (cases "map_of (callMapOf cs) k") (auto simp: depsOf_def graphOf_lookup orEmpty_def)
  then show ?thesis using callMapOf_Some by blast
qed


subsection \<open>One round of the loop\<close>

lemma collectBatch_ids:
  "set rem \<subseteq> callId ` set cs \<Longrightarrow>
     map callId (collectBatch (callMapOf cs) d rem) = filter (\<lambda>i. map_of d i = Some 0) rem"
proof (induction rem)
  case Nil
  show ?case by (simp add: collectBatch_def List.map_filter_def)
next
  case (Cons x rem)
  from Cons.prems have "x \<in> callId ` set cs" by simp
  then obtain c where c: "map_of (callMapOf cs) x = Some c" using callMapOf_dom by blast
  then have x: "callId c = x" by (simp add: callMapOf_Some)
  have IH: "map callId (collectBatch (callMapOf cs) d rem) = filter (\<lambda>i. map_of d i = Some 0) rem"
    using Cons by simp
  show ?case using IH c x by (simp add: collectBatch_def List.map_filter_def)
qed

lemma decrement_step:
  "map_of (case map_of g y of
            None \<Rightarrow> d
          | Some deps \<Rightarrow>
              if k \<in> set deps
              then (case map_of d y of None \<Rightarrow> d | Some n \<Rightarrow> AList.update y (n - 1) d)
              else d) x =
      (if x = y \<and> k \<in> set (orEmpty (map_of g x)) then map_option (\<lambda>n. n - (1::int)) (map_of d x)
       else map_of d x)"
  by (cases "map_of g y"; cases "map_of d y") (auto simp: orEmpty_def update_conv)

lemma decrementDependents_lookup:
  "distinct rem \<Longrightarrow>
     map_of (decrementDependents g k rem d) x =
       (if x \<in> set rem \<and> k \<in> set (orEmpty (map_of g x)) then map_option (\<lambda>n. n - 1) (map_of d x)
        else map_of d x)"
proof (induction rem arbitrary: d)
  case Nil
  show ?case by (simp add: decrementDependents_def)
next
  case (Cons y rem)
  let ?d' = "(case map_of g y of
            None \<Rightarrow> d
          | Some deps \<Rightarrow>
              if k \<in> set deps
              then (case map_of d y of None \<Rightarrow> d | Some n \<Rightarrow> AList.update y (n - 1) d)
              else d)"
  have step: "decrementDependents g k (y # rem) d = decrementDependents g k rem ?d'"
    by (simp add: decrementDependents_def)
  have d': "map_of ?d' x =
      (if x = y \<and> k \<in> set (orEmpty (map_of g x)) then map_option (\<lambda>n. n - 1) (map_of d x) else map_of d x)"
    by (rule decrement_step)
  have "y \<notin> set rem" "distinct rem" using Cons.prems by auto
  then show ?case
    unfolding step using Cons.IH[of ?d'] d' by auto
qed

lemma snd_processCalls:
  "distinct rem \<Longrightarrow> x \<in> set rem \<Longrightarrow> x \<notin> callId ` set b \<Longrightarrow>
     map_of (snd (foldl (processCall g) (rem, d) b)) x =
       map_option (\<lambda>n. n - int (length (filter (\<lambda>c. callId c \<in> set (orEmpty (map_of g x))) b))) (map_of d x)"
proof (induction b arbitrary: rem d)
  case Nil
  show ?case by (simp add: option.map_ident)
next
  case (Cons c b)
  let ?rem = "removeAll (callId c) rem"
  let ?d = "decrementDependents g (callId c) ?rem d"
  have p: "processCall g (rem, d) c = (?rem, ?d)" by (simp add: processCall_def Let_def)
  have dr: "distinct ?rem" using Cons.prems(1) by (simp add: distinct_removeAll)
  have xr: "x \<in> set ?rem" using Cons.prems(2,3) by simp
  have xb: "x \<notin> callId ` set b" using Cons.prems(3) by simp
  have "map_of ?d x = (if callId c \<in> set (orEmpty (map_of g x)) then map_option (\<lambda>n. n - 1) (map_of d x)
        else map_of d x)"
    using decrementDependents_lookup[OF dr, of g "callId c" d x] xr by simp
  then show ?case
    using Cons.IH[OF dr xr xb, of ?d] by (cases "map_of d x") (auto simp: p)
qed

lemma count_in_batch:
  "distinct (map callId b) \<Longrightarrow> length (filter (\<lambda>c. callId c \<in> D) b) = card (D \<inter> callId ` set b)"
proof -
  assume d: "distinct (map callId b)"
  have "length (filter (\<lambda>c. callId c \<in> D) b) = length (filter (\<lambda>k. k \<in> D) (map callId b))"
    by (simp add: filter_map o_def)
  also have "\<dots> = card (set (filter (\<lambda>k. k \<in> D) (map callId b)))"
    by (metis d distinct_card distinct_filter)
  also have "set (filter (\<lambda>k. k \<in> D) (map callId b)) = D \<inter> callId ` set b" by auto
  finally show ?thesis .
qed

lemma depsOrdered_append:
  "depsOrdered dp D (bs @ [b]) \<longleftrightarrow>
     depsOrdered dp D bs \<and> (\<forall>c \<in> set b. set (dp (callId c)) \<subseteq> D \<union> set (batchIds bs))"
  by (induction bs arbitrary: D) (auto simp: batchIds_def)

lemma batchIds_append: "batchIds (bs @ [b]) = batchIds bs @ map callId b"
  by (simp add: batchIds_def)

lemma batchIds_Cons: "batchIds (b # bs) = map callId b @ batchIds bs"
  by (simp add: batchIds_def)

lemma batchIds_Nil: "batchIds [] = []"
  by (simp add: batchIds_def)

lemma card_diff_batch:
  assumes "finite Dx" and "B \<inter> P = {}"
  shows "int (card (Dx - (P \<union> B))) = int (card (Dx - P)) - int (card (Dx \<inter> B))"
proof -
  have sub: "Dx \<inter> B \<subseteq> Dx - P" using assms(2) by auto
  have fin: "finite (Dx \<inter> B)" using assms(1) by simp
  have "Dx - (P \<union> B) = (Dx - P) - (Dx \<inter> B)" by auto
  then have "card (Dx - (P \<union> B)) = card (Dx - P) - card (Dx \<inter> B)"
    using card_Diff_subset[OF fin sub] by simp
  moreover have "card (Dx \<inter> B) \<le> card (Dx - P)"
    using sub assms(1) by (simp add: card_mono)
  ultimately show ?thesis by simp
qed


subsection \<open>The invariant and the batches returned\<close>

lemma kahnInv_init: "kahnInv reg cs (set_from (map callId cs)) (inDegreeOf reg cs) []"
  by (simp add: kahnInv_def distinct_set_from set_set_from batchIds_def inDegreeOf_depsOf)

lemma kahnInv_step:
  assumes inv: "kahnInv reg cs rem d bs"
  shows "kahnInv reg cs
           (fst (foldl (processCall (graphOf reg cs)) (rem, d) (collectBatch (callMapOf cs) d rem)))
           (snd (foldl (processCall (graphOf reg cs)) (rem, d) (collectBatch (callMapOf cs) d rem)))
           (bs @ [collectBatch (callMapOf cs) d rem])"
proof -
  let ?B = "collectBatch (callMapOf cs) d rem"
  let ?g = "graphOf reg cs"
  let ?rem' = "fst (foldl (processCall ?g) (rem, d) ?B)"
  let ?d' = "snd (foldl (processCall ?g) (rem, d) ?B)"
  let ?P = "set (batchIds bs)"
  have dr: "distinct rem" and sub: "set rem \<subseteq> callId ` set cs"
    and db: "distinct (batchIds bs)" and P: "?P = callId ` set cs - set rem"
    and deg: "\<And>x. x \<in> set rem \<Longrightarrow> map_of d x = Some (int (card (set (depsOf reg cs x) - ?P)))"
    and ord: "depsOrdered (depsOf reg cs) {} bs"
    and cm: "\<And>b c. b \<in> set bs \<Longrightarrow> c \<in> set b \<Longrightarrow> map_of (callMapOf cs) (callId c) = Some c"
    using inv by (auto simp: kahnInv_def)
  have ids: "map callId ?B = filter (\<lambda>i. map_of d i = Some 0) rem"
    using sub by (rule collectBatch_ids)
  have dB: "distinct (map callId ?B)" using dr by (simp add: ids)
  have Brem: "callId ` set ?B \<subseteq> set rem"
  proof -
    have "set (map callId ?B) \<subseteq> set rem" unfolding ids by auto
    then show ?thesis by simp
  qed
  have rem': "?rem' = filter (\<lambda>x. x \<notin> callId ` set ?B) rem"
    by (simp add: fst_processCalls)
  have 1: "distinct ?rem'" using dr by (simp add: rem')
  have 2: "set ?rem' \<subseteq> callId ` set cs" using sub by (auto simp: rem')
  have disj: "callId ` set ?B \<inter> ?P = {}" using Brem P by auto
  have 3: "distinct (batchIds (bs @ [?B]))"
    using db dB disj by (auto simp: batchIds_append)
  have 4: "set (batchIds (bs @ [?B])) = callId ` set cs - set ?rem'"
    using Brem sub P by (auto simp: batchIds_append rem')
  have 5: "map_of ?d' x = Some (int (card (set (depsOf reg cs x) - set (batchIds (bs @ [?B])))))"
    if x: "x \<in> set ?rem'" for x
  proof -
    have xr: "x \<in> set rem" and xb: "x \<notin> callId ` set ?B" using x by (auto simp: rem')
    have "map_of ?d' x =
        map_option (\<lambda>n. n - int (length (filter (\<lambda>c. callId c \<in> set (depsOf reg cs x)) ?B))) (map_of d x)"
      using snd_processCalls[OF dr xr xb, of ?g d] by (simp add: depsOf_def)
    also have "\<dots> = Some (int (card (set (depsOf reg cs x) - ?P))
                       - int (card (set (depsOf reg cs x) \<inter> callId ` set ?B)))"
      by (simp add: deg[OF xr] count_in_batch[OF dB])
    also have "int (card (set (depsOf reg cs x) - ?P)) - int (card (set (depsOf reg cs x) \<inter> callId ` set ?B))
        = int (card (set (depsOf reg cs x) - (?P \<union> callId ` set ?B)))"
      using card_diff_batch[of "set (depsOf reg cs x)" "callId ` set ?B" ?P] disj by simp
    finally show ?thesis by (simp add: batchIds_append)
  qed
  have 6: "depsOrdered (depsOf reg cs) {} (bs @ [?B])"
  proof -
    have "set (depsOf reg cs (callId c)) \<subseteq> ?P" if c: "c \<in> set ?B" for c
    proof -
      have m: "callId c \<in> set rem" "map_of d (callId c) = Some 0"
        using collectBatch_member[OF c] by auto
      then have "card (set (depsOf reg cs (callId c)) - ?P) = 0"
        using deg[of "callId c"] by simp
      then show ?thesis by simp
    qed
    then show ?thesis using ord by (simp add: depsOrdered_append)
  qed
  have 7: "map_of (callMapOf cs) (callId c) = Some c" if "b \<in> set (bs @ [?B])" "c \<in> set b" for b c
    using that cm collectBatch_member[of c cs d rem] by auto
  show ?thesis
    unfolding kahnInv_def using 1 2 3 4 5 6 7 by blast
qed

lemma kahnLoop_Inr:
  "kahnInv reg cs rem d bs \<Longrightarrow> g = graphOf reg cs \<Longrightarrow> kahnLoop cs g rem d bs = Inr B \<Longrightarrow>
     \<exists>d'. kahnInv reg cs [] d' B"
proof (induction cs g rem d bs rule: kahnLoop.induct)
  case (1 cs graph remaining inDegree batches)
  show ?case
  proof (cases "remaining = []")
    case True
    then have "B = batches" using "1.prems"(3) by (simp add: kahnLoop.simps)
    then show ?thesis using "1.prems"(1) True by auto
  next
    case False
    then have ne: "collectBatch (callMapOf cs) inDegree remaining \<noteq> []"
      using "1.prems"(3) by (auto simp: kahnLoop.simps split: if_splits)
    have "kahnInv reg cs
           (fst (foldl (processCall graph) (remaining, inDegree) (collectBatch (callMapOf cs) inDegree remaining)))
           (snd (foldl (processCall graph) (remaining, inDegree) (collectBatch (callMapOf cs) inDegree remaining)))
           (batches @ [collectBatch (callMapOf cs) inDegree remaining])"
      using kahnInv_step[OF "1.prems"(1)] "1.prems"(2) by simp
    moreover have "kahnLoop cs graph
           (fst (foldl (processCall graph) (remaining, inDegree) (collectBatch (callMapOf cs) inDegree remaining)))
           (snd (foldl (processCall graph) (remaining, inDegree) (collectBatch (callMapOf cs) inDegree remaining)))
           (batches @ [collectBatch (callMapOf cs) inDegree remaining]) = Inr B"
      using "1.prems"(3) False ne by (subst (asm) kahnLoop.simps) simp
    ultimately show ?thesis
      using "1.IH"[OF False ne] "1.prems"(2) by blast
  qed
qed

lemma kahnLoop_Inl: "kahnLoop cs g rem d bs = Inl e \<Longrightarrow> e = CycleDetected"
proof (induction cs g rem d bs rule: kahnLoop.induct)
  case (1 cs graph remaining inDegree batches)
  show ?case
  proof (cases "remaining = [] \<or> collectBatch (callMapOf cs) inDegree remaining = []")
    case True
    then show ?thesis using "1.prems" by (subst (asm) kahnLoop.simps) (auto split: if_splits)
  next
    case False
    then show ?thesis using "1.prems" "1.IH" by (subst (asm) kahnLoop.simps) simp
  qed
qed

lemma buildExecutionOrder_batches:
  assumes "buildExecutionOrder reg cs = Inr B"
  shows "distinct (batchIds B)" and "set (batchIds B) = callId ` set cs"
    and "depsOrdered (depsOf reg cs) {} B"
    and "\<And>b c. b \<in> set B \<Longrightarrow> c \<in> set b \<Longrightarrow> map_of (callMapOf cs) (callId c) = Some c"
proof -
  have "\<exists>d'. kahnInv reg cs [] d' B"
  proof (cases "cs = []")
    case True
    then have "B = []" using assms by (simp add: buildExecutionOrder_def)
    then show ?thesis using True by (simp add: kahnInv_def batchIds_def)
  next
    case False
    then have "kahnLoop cs (graphOf reg cs) (set_from (map callId cs)) (inDegreeOf reg cs) [] = Inr B"
      using assms by (simp add: buildExecutionOrder_def)
    then show ?thesis using kahnLoop_Inr[OF kahnInv_init refl] by blast
  qed
  then obtain d' where k: "kahnInv reg cs [] d' B" by blast
  show "distinct (batchIds B)" using k by (simp add: kahnInv_def)
  show "set (batchIds B) = callId ` set cs" using k by (simp add: kahnInv_def)
  show "depsOrdered (depsOf reg cs) {} B" using k by (simp add: kahnInv_def)
  show "\<And>b c. b \<in> set B \<Longrightarrow> c \<in> set b \<Longrightarrow> map_of (callMapOf cs) (callId c) = Some c"
    using k by (simp add: kahnInv_def)
qed

lemma buildExecutionOrder_error: "buildExecutionOrder reg cs = Inl e \<Longrightarrow> e = CycleDetected"
  by (auto simp: buildExecutionOrder_def dest: kahnLoop_Inl split: if_splits)


subsection \<open>Cycles\<close>

lemma edgesAlong_successor:
  "edgesAlong dp (p @ [z]) \<Longrightarrow> x \<in> set p \<Longrightarrow> \<exists>y \<in> set (p @ [z]). y \<in> set (dp x)"
proof (induction p)
  case Nil
  then show ?case by simp
next
  case (Cons a p)
  show ?case
  proof (cases p)
    case Nil
    then show ?thesis using Cons.prems by auto
  next
    case (Cons b q)
    then show ?thesis using Cons.prems Cons.IH by auto
  qed
qed

lemma depsOrdered_no_cycle:
  "depsOrdered dp D B \<Longrightarrow> C \<inter> D = {} \<Longrightarrow> (\<And>x. x \<in> C \<Longrightarrow> \<exists>y \<in> C. y \<in> set (dp x)) \<Longrightarrow>
     C \<inter> set (batchIds B) = {}"
proof (induction B arbitrary: D)
  case Nil
  show ?case by (simp add: batchIds_def)
next
  case (Cons b B)
  have nb: "C \<inter> callId ` set b = {}"
  proof (rule ccontr)
    assume "C \<inter> callId ` set b \<noteq> {}"
    then obtain c where c: "c \<in> set b" "callId c \<in> C" by auto
    then obtain y where y: "y \<in> C" "y \<in> set (dp (callId c))" using Cons.prems(3) by blast
    have "set (dp (callId c)) \<subseteq> D" using Cons.prems(1) c(1) by simp
    then show False using y Cons.prems(2) by auto
  qed
  then have "C \<inter> (D \<union> callId ` set b) = {}" using Cons.prems(2) by auto
  then have "C \<inter> set (batchIds B) = {}"
    using Cons.IH[of "D \<union> callId ` set b"] Cons.prems(1,3) by simp
  then show ?case using nb by (auto simp: batchIds_def)
qed

lemma cycle_not_ordered:
  assumes "isCycle reg cs p"
  shows "buildExecutionOrder reg cs = Inl CycleDetected"
proof (cases "buildExecutionOrder reg cs")
  case (Inl e)
  then show ?thesis using buildExecutionOrder_error[OF Inl] by simp
next
  case (Inr B)
  have ne: "p \<noteq> []" and ed: "edgesAlong (depsOf reg cs) (p @ [hd p])"
    using assms by (auto simp: isCycle_def)
  have succ: "\<exists>y \<in> set p. y \<in> set (depsOf reg cs x)" if "x \<in> set p" for x
    using edgesAlong_successor[OF ed that] ne by auto
  have "set p \<inter> set (batchIds B) = {}"
    using depsOrdered_no_cycle[OF buildExecutionOrder_batches(3)[OF Inr], of "set p"] succ by auto
  moreover have "set p \<subseteq> set (batchIds B)"
    using succ depsOf_nonempty buildExecutionOrder_batches(2)[OF Inr] by blast
  ultimately have "set p = {}" using Int_absorb2[of "set p" "set (batchIds B)"] by simp
  then show ?thesis using ne by simp
qed


section \<open>What a batch adds to the trace\<close>

lemma handlerEvents_Nil: "handlerEvents K prev []"
  by (simp add: handlerEvents_def)

lemma handlerEvents_append:
  "handlerEvents K prev (a @ b) \<longleftrightarrow> handlerEvents K prev a \<and> handlerEvents K prev b"
  by (auto simp: handlerEvents_def)

lemma handlerEvents_mono: "handlerEvents K prev evs \<Longrightarrow> K \<subseteq> K' \<Longrightarrow> handlerEvents K' prev evs"
  unfolding handlerEvents_def by blast

lemma compensatedIn_append: "compensatedIn (a @ b) = compensatedIn a @ compensatedIn b"
  by (simp add: compensatedIn_def List.map_filter_def)


lemma invokeHandler_trace:
  "trace (snd (invokeHandler h c ctx s)) = trace s @ [Invoked (callId c) (previousResults ctx)]"
  by (simp add: invokeHandler_def split: prod.splits)

lemma retryLoop_trace:
  "\<exists>evs. trace (snd (retryLoop h c ctx rc n le s)) = trace s @ evs
         \<and> handlerEvents {callId c} (previousResults ctx) evs"
proof (induction h c ctx rc n le s rule: retryLoop.induct)
  case (1 h c ctx rc n le s)
  show ?case
  proof (cases "int n < maxAttempts rc")
    case False
    then show ?thesis by (subst retryLoop.simps) (simp add: handlerEvents_Nil)
  next
    case True
    obtain r s1 where i: "invokeHandler h c ctx s = (r, s1)" by (cases "invokeHandler h c ctx s")
    have t1: "trace s1 = trace s @ [Invoked (callId c) (previousResults ctx)]"
      using invokeHandler_trace[of h c ctx s] i by simp
    have e1: "handlerEvents {callId c} (previousResults ctx) [Invoked (callId c) (previousResults ctx)]"
      by (simp add: handlerEvents_def)
    show ?thesis
    proof (cases r)
      case (Inr v)
      then show ?thesis using True i t1 e1 by (subst retryLoop.simps) auto
    next
      case (Inl msg)
      show ?thesis
      proof (cases "int n = maxAttempts rc - 1")
        case last: True
        then show ?thesis using True i t1 e1 Inl by (subst retryLoop.simps) auto
      next
        case more: False
        obtain evs where evs:
          "trace (snd (retryLoop h c ctx rc (Suc n) (Some (HandlerError msg)) (sleep (calculateBackoff n rc) s1)))
             = trace (sleep (calculateBackoff n rc) s1) @ evs"
          "handlerEvents {callId c} (previousResults ctx) evs"
          using "1.IH"[OF True i[symmetric] Inl more] by auto
        have "retryLoop h c ctx rc n le s =
            retryLoop h c ctx rc (Suc n) (Some (HandlerError msg)) (sleep (calculateBackoff n rc) s1)"
          using True i Inl more by (subst retryLoop.simps) simp
        moreover have "handlerEvents {callId c} (previousResults ctx)
            ([Invoked (callId c) (previousResults ctx), Slept (calculateBackoff n rc)] @ evs)"
          using evs(2) by (simp add: handlerEvents_def)
        ultimately show ?thesis using evs(1) t1 by (auto simp: sleep_def)
      qed
    qed
  qed
qed

lemma executeWithRetry_trace:
  "\<exists>evs. trace (snd (executeWithRetry config c action h ctx s)) = trace s @ evs
         \<and> handlerEvents {callId c} (previousResults ctx) evs"
proof (cases "if enableRetry config
            then (case retry action of Some rc \<Rightarrow> Some rc | None \<Rightarrow> defaultRetry config)
            else None")
  case None
  have "handlerEvents {callId c} (previousResults ctx) [Invoked (callId c) (previousResults ctx)]"
    by (simp add: handlerEvents_def)
  then show ?thesis
    using None invokeHandler_trace[of h c ctx s]
    by (auto simp: executeWithRetry_def split: prod.splits sum.splits)
next
  case (Some rc)
  then show ?thesis using retryLoop_trace[of h c ctx rc 0 None s] by (simp add: executeWithRetry_def)
qed

lemma runCall_key: "fst (fst (runCall config reg ctx c s)) = callId c"
  by (simp add: runCall_def split: option.splits prod.splits sum.splits)

lemma runCall_trace:
  "\<exists>evs. trace (snd (runCall config reg ctx c s)) = trace s @ evs
         \<and> handlerEvents {callId c} (previousResults ctx) evs"
proof (cases "get reg (actionId c)")
  case None
  then show ?thesis by (simp add: runCall_def handlerEvents_Nil)
next
  case (Some action)
  show ?thesis
  proof (cases "handler action")
    case None
    then show ?thesis using Some by (simp add: runCall_def handlerEvents_Nil)
  next
    case h: (Some h)
    show ?thesis
      using executeWithRetry_trace[of config c action h ctx s] Some h
      by (auto simp: runCall_def split: prod.splits sum.splits)
  qed
qed

lemma runAll_keys: "map fst (fst (runAll config reg ctx b s)) = map callId b"
proof (induction b arbitrary: s)
  case Nil
  show ?case by simp
next
  case (Cons c b)
  obtain r s1 where r: "runCall config reg ctx c s = (r, s1)" by (cases "runCall config reg ctx c s")
  obtain rs s2 where rs: "runAll config reg ctx b s1 = (rs, s2)" by (cases "runAll config reg ctx b s1")
  have "fst r = callId c" using runCall_key[of config reg ctx c s] r by simp
  moreover have "map fst rs = map callId b" using Cons[of s1] rs by simp
  ultimately show ?case by (simp add: r rs)
qed

lemma runAll_trace:
  "\<exists>evs. trace (snd (runAll config reg ctx b s)) = trace s @ evs
         \<and> handlerEvents (callId ` set b) (previousResults ctx) evs"
proof (induction b arbitrary: s)
  case Nil
  show ?case by (simp add: handlerEvents_Nil)
next
  case (Cons c b)
  obtain r s1 where r: "runCall config reg ctx c s = (r, s1)" by (cases "runCall config reg ctx c s")
  obtain rs s2 where rs: "runAll config reg ctx b s1 = (rs, s2)" by (cases "runAll config reg ctx b s1")
  obtain e1 where e1: "trace s1 = trace s @ e1" "handlerEvents {callId c} (previousResults ctx) e1"
    using runCall_trace[of config reg ctx c s] r by auto
  obtain e2 where e2: "trace s2 = trace s1 @ e2" "handlerEvents (callId ` set b) (previousResults ctx) e2"
    using Cons[of s1] rs by auto
  have "handlerEvents (callId ` set (c # b)) (previousResults ctx) (e1 @ e2)"
    using e1(2) e2(2) by (auto simp: handlerEvents_def)
  then show ?case using e1(1) e2(1) by (simp add: r rs)
qed

lemma merge_distinct:
  "distinct (map fst res @ map fst es) \<Longrightarrow> foldl (\<lambda>m (k, r). AList.update k r m) res es = res @ es"
proof (induction es arbitrary: res)
  case Nil
  show ?case by simp
next
  case (Cons e es)
  obtain k r where e: "e = (k, r)" by (cases e)
  have "k \<notin> fst ` set res" using Cons.prems e by auto
  then have u: "AList.update k r res = res @ [(k, r)]" by (rule update_new_key)
  have "distinct (map fst (res @ [(k, r)]) @ map fst es)" using Cons.prems e by auto
  then show ?case using Cons.IH[of "res @ [(k, r)]"] by (simp add: e u)
qed

lemma executeBatch_runAll:
  "distinct (map callId b) \<Longrightarrow> executeBatch config reg b ctx s = runAll config reg ctx b s"
proof -
  assume d: "distinct (map callId b)"
  obtain rs s1 where rs: "runAll config reg ctx b s = (rs, s1)" by (cases "runAll config reg ctx b s")
  have "map fst rs = map callId b" using runAll_keys[of config reg ctx b s] rs by simp
  then have "foldl (\<lambda>m (k, r). AList.update k r m) [] rs = [] @ rs"
    using d by (intro merge_distinct) simp
  then show ?thesis by (simp add: executeBatch_def rs)
qed

lemma find_call:
  "distinct (map callId batch) \<Longrightarrow> c \<in> set batch \<Longrightarrow> find (\<lambda>c'. callId c' = callId c) batch = Some c"
  by (induction batch) auto


section \<open>Compensation and the merge loop\<close>

lemma compensateEach_trace:
  "\<exists>evs. trace (compensateEach reg res ctx cs s) = trace s @ evs
         \<and> compensationEvents evs
         \<and> compensatedIn evs = map callId (filter (compensable reg res) cs)"
proof (induction cs arbitrary: s)
  case Nil
  show ?case by (simp add: compensationEvents_def compensatedIn_def List.map_filter_def)
next
  case (Cons c cs)
  show ?case
  proof (cases "compensable reg res c")
    case False
    then have "compensateEach reg res ctx (c # cs) s = compensateEach reg res ctx cs s"
      by (auto simp: compensable_def split: option.splits)
    then show ?thesis using Cons[of s] False by simp
  next
    case True
    then obtain action undo callResult where a: "get reg (actionId c) = Some action"
      "compensate action = Some undo" "map_of res (callId c) = Some callResult" "error callResult = None"
      by (auto simp: compensable_def split: option.splits)
    obtain r w where u: "undo (args c) (result callResult) ctx (world s) = (r, w)"
      by (cases "undo (args c) (result callResult) ctx (world s)")
    let ?e = "case r of Inr u \<Rightarrow> [Compensated (callId c)]
              | Inl msg \<Rightarrow> [Compensated (callId c), CompensationFailed (actionId c) msg]"
    have step: "compensateEach reg res ctx (c # cs) s =
        compensateEach reg res ctx cs \<lparr>world = w, trace = trace s @ ?e\<rparr>"
      using a u by (cases r) simp_all
    have e: "compensationEvents ?e" "compensatedIn ?e = [callId c]"
      by (cases r; simp add: compensationEvents_def compensatedIn_def List.map_filter_def)+
    obtain evs where evs: "trace (compensateEach reg res ctx cs \<lparr>world = w, trace = trace s @ ?e\<rparr>)
          = (trace s @ ?e) @ evs" "compensationEvents evs"
        "compensatedIn evs = map callId (filter (compensable reg res) cs)"
      using Cons[of "\<lparr>world = w, trace = trace s @ ?e\<rparr>"] by auto
    have "compensationEvents (?e @ evs)" using e(1) evs(2) by (auto simp: compensationEvents_def)
    moreover have "compensatedIn (?e @ evs) = map callId (filter (compensable reg res) (c # cs))"
      using e(2) evs(3) True by (simp add: compensatedIn_append)
    ultimately show ?thesis using evs(1) unfolding step by (intro exI[of _ "?e @ evs"]) simp
  qed
qed

lemma mergeBatch_all_ok:
  assumes "distinct (map callId batch)" and "set cs \<subseteq> set batch" and "map fst entries = map callId cs"
    and "distinct (map fst res @ map fst entries)" and "\<forall>p \<in> set entries. error (snd p) = None"
  shows "mergeBatch config reg context batch entries (res, ex, succ, fl) s =
           (Inr (res @ entries, ex @ cs, succ + length entries, fl), s)"
  using assms(2-5)
proof (induction entries arbitrary: cs res ex succ)
  case Nil
  then show ?case by simp
next
  case (Cons e entries)
  obtain k r where e: "e = (k, r)" by (cases e)
  obtain c cs' where cs: "cs = c # cs'" "callId c = k" "map fst entries = map callId cs'"
    using Cons.prems(2) e by (cases cs) auto
  have f: "find (\<lambda>c'. callId c' = k) batch = Some c"
    using find_call[OF assms(1), of c] Cons.prems(1) cs by auto
  have "k \<notin> fst ` set res" using Cons.prems(3) e by auto
  then have u: "AList.update k r res = res @ [(k, r)]" by (rule update_new_key)
  have ok: "error r = None" using Cons.prems(4) e by simp
  have "mergeBatch config reg context batch entries (res @ [(k, r)], ex @ [c], succ + 1, fl) s =
           (Inr ((res @ [(k, r)]) @ entries, (ex @ [c]) @ cs', (succ + 1) + length entries, fl), s)"
    using Cons.prems cs e by (intro Cons.IH) auto
  then show ?case by (simp add: e f u ok cs)
qed

lemma mergeBatch_first_error:
  assumes "distinct (map callId batch)" and "set cs \<subseteq> set batch"
    and "map fst (pre @ e # post) = map callId cs"
    and "distinct (map fst res @ map fst (pre @ e # post))"
    and "\<forall>p \<in> set pre. error (snd p) = None" and "error (snd e) \<noteq> None"
  shows "mergeBatch config reg context batch (pre @ e # post) (res, ex, succ, fl) s =
           (Inl \<lparr>succeeded = succ + length pre, failed = fl + 1, results = res @ pre @ [e]\<rparr>,
            if enableCompensation config
            then compensate' reg (ex @ take (Suc (length pre)) cs) (res @ pre @ [e])
                   \<lparr>appContext = context, previousResults = res @ pre @ [e]\<rparr> s
            else s)"
  using assms(2-5)
proof (induction pre arbitrary: cs res ex succ)
  case Nil
  obtain k r where e: "e = (k, r)" by (cases e)
  obtain c cs' where cs: "cs = c # cs'" "callId c = k"
    using Nil.prems(2) e by (cases cs) auto
  have f: "find (\<lambda>c'. callId c' = k) batch = Some c"
    using find_call[OF assms(1), of c] Nil.prems(1) cs by auto
  have "k \<notin> fst ` set res" using Nil.prems(3) e by auto
  then have u: "AList.update k r res = res @ [(k, r)]" by (rule update_new_key)
  show ?case using assms(6) by (simp add: e f u cs Let_def)
next
  case (Cons p pre)
  obtain k r where p: "p = (k, r)" by (cases p)
  obtain c cs' where cs: "cs = c # cs'" "callId c = k" "map fst (pre @ e # post) = map callId cs'"
    using Cons.prems(2) p by (cases cs) auto
  have f: "find (\<lambda>c'. callId c' = k) batch = Some c"
    using find_call[OF assms(1), of c] Cons.prems(1) cs by auto
  have "k \<notin> fst ` set res" using Cons.prems(3) p by auto
  then have u: "AList.update k r res = res @ [(k, r)]" by (rule update_new_key)
  have ok: "error r = None" using Cons.prems(4) p by simp
  have "mergeBatch config reg context batch (pre @ e # post) (res @ [(k, r)], ex @ [c], succ + 1, fl) s =
           (Inl \<lparr>succeeded = (succ + 1) + length pre, failed = fl + 1, results = (res @ [(k, r)]) @ pre @ [e]\<rparr>,
            if enableCompensation config
            then compensate' reg ((ex @ [c]) @ take (Suc (length pre)) cs') ((res @ [(k, r)]) @ pre @ [e])
                   \<lparr>appContext = context, previousResults = (res @ [(k, r)]) @ pre @ [e]\<rparr> s
            else s)"
    using Cons.prems cs p by (intro Cons.IH) auto
  then show ?case by (simp add: p f u ok cs)
qed

lemma first_error_split:
  "(\<forall>p \<in> set br. error (snd p) = None)
   \<or> (\<exists>pre e post. br = pre @ e # post \<and> (\<forall>p \<in> set pre. error (snd p) = None) \<and> error (snd e) \<noteq> None)"
proof (cases "\<exists>p \<in> set br. error (snd p) \<noteq> None")
  case True
  then obtain ys x zs where sp: "br = ys @ x # zs" "error (snd x) \<noteq> None"
      "\<forall>y \<in> set ys. \<not> error (snd y) \<noteq> None"
    using split_list_first_prop[of br "\<lambda>p. error (snd p) \<noteq> None"] by blast
  have "br = ys @ x # zs \<and> (\<forall>p \<in> set ys. error (snd p) = None) \<and> error (snd x) \<noteq> None"
    using sp by simp
  then show ?thesis by blast
next
  case False
  then show ?thesis by simp
qed

lemma runBatches_continue:
  assumes "distinct (map fst res @ map callId b)"
    and "runAll config reg \<lparr>appContext = context, previousResults = res\<rparr> b s = (br, s1)"
    and "\<forall>p \<in> set br. error (snd p) = None"
  shows "runBatches config reg context (b # bs) (res, ex, succ, fl) s =
           runBatches config reg context bs (res @ br, ex @ b, succ + length b, fl) s1"
proof -
  have d: "distinct (map callId b)" using assms(1) by simp
  have k: "map fst br = map callId b"
    using runAll_keys[of config reg "\<lparr>appContext = context, previousResults = res\<rparr>" b s] assms(2) by simp
  then have l: "length br = length b" by (metis length_map)
  have e: "executeBatch config reg b \<lparr>appContext = context, previousResults = res\<rparr> s = (br, s1)"
    by (simp add: executeBatch_runAll[OF d] assms(2))
  have "mergeBatch config reg context b br (res, ex, succ, fl) s1 =
           (Inr (res @ br, ex @ b, succ + length br, fl), s1)"
  proof (rule mergeBatch_all_ok[OF d subset_refl k _ assms(3)])
    show "distinct (map fst res @ map fst br)" using assms(1) k by simp
  qed
  then show ?thesis by (simp add: e l)
qed

lemma runBatches_stop:
  assumes "distinct (map fst res @ map callId b)"
    and "runAll config reg \<lparr>appContext = context, previousResults = res\<rparr> b s = (pre @ e # post, s1)"
    and "\<forall>p \<in> set pre. error (snd p) = None" and "error (snd e) \<noteq> None"
  shows "runBatches config reg context (b # bs) (res, ex, succ, fl) s =
           (\<lparr>succeeded = succ + length pre, failed = fl + 1, results = res @ pre @ [e]\<rparr>,
            if enableCompensation config
            then compensate' reg (ex @ take (Suc (length pre)) b) (res @ pre @ [e])
                   \<lparr>appContext = context, previousResults = res @ pre @ [e]\<rparr> s1
            else s1)"
proof -
  have d: "distinct (map callId b)" using assms(1) by simp
  have k: "map fst (pre @ e # post) = map callId b"
    using runAll_keys[of config reg "\<lparr>appContext = context, previousResults = res\<rparr>" b s] assms(2) by simp
  have e: "executeBatch config reg b \<lparr>appContext = context, previousResults = res\<rparr> s = (pre @ e # post, s1)"
    by (simp add: executeBatch_runAll[OF d] assms(2))
  have dr: "distinct (map fst res @ map fst (pre @ e # post))" using assms(1) k by simp
  have "mergeBatch config reg context b (pre @ e # post) (res, ex, succ, fl) s1 =
           (Inl \<lparr>succeeded = succ + length pre, failed = fl + 1, results = res @ pre @ [e]\<rparr>,
            if enableCompensation config
            then compensate' reg (ex @ take (Suc (length pre)) b) (res @ pre @ [e])
                   \<lparr>appContext = context, previousResults = res @ pre @ [e]\<rparr> s1
            else s1)"
    by (rule mergeBatch_first_error[OF d subset_refl k dr assms(3) assms(4)])
  then show ?thesis by (simp add: e)
qed




section \<open>Properties of execute\<close>


subsection \<open>The scenarios evaluated\<close>

lemmas exec_eval = execute_def buildExecutionOrder_def callMapOf_def graphOf_def inDegreeOf_def
  actionIdToCallIds_def pushToIndex_def callDeps_def set_from_def set_add_def orEmpty_def get_def
  collectBatch_def List.map_filter_def processCall_def decrementDependents_def
  executeBatch_def runCall_def executeWithRetry_def invokeHandler_def compensate'_def
  defaultConfig_def

lemma siblings_value:
  "siblings = \<lparr>actions = [(''fails'', step ''fails'' None failing undoReturns None),
        (''works'', step ''works'' None returning undoReturns None)],
      actionsByTag = [], dependencyGraph = [], locked = False\<rparr>"
  by (simp add: siblings_def reg_eval step_def)

lemma siblings_order:
  "buildExecutionOrder siblings (calls siblingsPlan) =
     Inr [[call ''c1'' ''fails'' None, call ''c2'' ''works'' None]]"
  unfolding siblings_value siblingsPlan_def
  apply (simp add: buildExecutionOrder_def)
  apply (subst kahnLoop.simps)
  apply (simp add: exec_eval call_def step_def)
  apply (subst kahnLoop.simps)
  apply (simp add: exec_eval call_def step_def)
  done

lemma chain_value:
  "chain = \<lparr>actions = [(''step1'', step ''step1'' None returning undoReturns None),
        (''step2'', step ''step2'' (Some [''step1'']) returning undoThrows None),
        (''step3'', step ''step3'' (Some [''step2'']) failing undoReturns None)],
      actionsByTag = [],
      dependencyGraph = [(''step1'', [''step2'']), (''step2'', [''step3''])], locked = False\<rparr>"
  by (simp add: chain_def reg_eval step_def)

lemma chain_order:
  "buildExecutionOrder chain (calls chainPlan) =
     Inr [[call ''call1'' ''step1'' None], [call ''call2'' ''step2'' (Some [''call1''])],
          [call ''call3'' ''step3'' (Some [''call2''])]]"
  unfolding chain_value chainPlan_def
  apply (simp add: buildExecutionOrder_def)
  apply (subst kahnLoop.simps)
  apply (simp add: exec_eval call_def step_def)
  apply (subst kahnLoop.simps)
  apply (simp add: exec_eval call_def step_def)
  apply (subst kahnLoop.simps)
  apply (simp add: exec_eval call_def step_def)
  apply (subst kahnLoop.simps)
  apply (simp add: exec_eval call_def step_def)
  done

lemma chain_run:
  "execute defaultConfig chain chainPlan () state0 = (Inr chainResult, chainFinal)"
  unfolding execute_def chain_order chainResult_def chainFinal_def
  unfolding chain_value
  by (simp add: exec_eval call_def step_def state0_def failing_def returning_def undoReturns_def undoThrows_def)

lemma chain_deps:
  "depsOf chain (calls chainPlan) ''call3'' = [''call2'']
   \<and> depsOf chain (calls chainPlan) ''call2'' = [''call1'']"
  unfolding chain_value chainPlan_def
  by (simp add: depsOf_def graphOf_def callDeps_def actionIdToCallIds_def pushToIndex_def call_def step_def
      get_def orEmpty_def set_from_def set_add_def)

lemma cyclic_deps:
  "depsOf siblings (calls cyclicPlan) ''c1'' = [''c2''] \<and> depsOf siblings (calls cyclicPlan) ''c2'' = [''c1'']"
  unfolding siblings_value cyclicPlan_def
  by (simp add: depsOf_def graphOf_def callDeps_def actionIdToCallIds_def pushToIndex_def call_def step_def
      get_def orEmpty_def set_from_def set_add_def)


subsection \<open>Cycles in the plan\<close>

text \<open>
  Claim C7. When the call-level dependency graph of the plan has a cycle, \<^verbatim>\<open>execute\<close>
  throws the cycle error of \<^verbatim>\<open>buildExecutionOrder\<close> and leaves the executor state as it
  was: the world is untouched and the trace gains no event, so no handler and no
  compensating handler is invoked.
\<close>

theorem cycle_detected:
  assumes "isCycle reg (calls plan) p"
  shows "execute config reg plan context s = (Inl CycleDetected, s)"
  using cycle_not_ordered[OF assms] by (simp add: execute_def)

theorem cycle_detected_witness:
  "isCycle siblings (calls cyclicPlan) [''c1'', ''c2'']
   \<and> execute defaultConfig siblings cyclicPlan () state0 = (Inl CycleDetected, state0)"
proof -
  have c: "isCycle siblings (calls cyclicPlan) [''c1'', ''c2'']"
    by (simp add: isCycle_def cyclic_deps)
  show ?thesis using cycle_detected[OF c, of defaultConfig "()" state0] c by simp
qed


subsection \<open>Counts and the results map\<close>

lemma runBatches_counts:
  assumes "distinct (map fst res @ batchIds bs)" and "\<forall>p \<in> set res. error (snd p) = None"
    and "succ = length res"
    and "runBatches config reg context bs (res, ex, succ, 0) s = (r, s')"
  shows "distinct (map fst (results r))
       \<and> succeeded r + failed r = length (results r)
       \<and> failed r = length (filter (\<lambda>p. error (snd p) \<noteq> None) (results r))
       \<and> succeeded r = length (filter (\<lambda>p. error (snd p) = None) (results r))"
  using assms
proof (induction bs arbitrary: res ex succ s)
  case Nil
  then show ?case by (auto simp: batchIds_Nil)
next
  case (Cons b bs)
  have d: "distinct (map fst res @ map callId b)" using Cons.prems(1) by (auto simp: batchIds_Cons)
  obtain br s1 where br: "runAll config reg \<lparr>appContext = context, previousResults = res\<rparr> b s = (br, s1)"
    by (cases "runAll config reg \<lparr>appContext = context, previousResults = res\<rparr> b s")
  have k: "map fst br = map callId b"
    using runAll_keys[of config reg "\<lparr>appContext = context, previousResults = res\<rparr>" b s] br by simp
  from first_error_split[of br] show ?case
  proof
    assume ok: "\<forall>p \<in> set br. error (snd p) = None"
    have l: "length br = length b" using k by (metis length_map)
    have run: "runBatches config reg context bs (res @ br, ex @ b, succ + length b, 0) s1 = (r, s')"
      using runBatches_continue[OF d br ok] Cons.prems(4) by simp
    have "distinct (map fst (res @ br) @ batchIds bs)"
      using Cons.prems(1) k by (simp add: batchIds_Cons)
    moreover have "\<forall>p \<in> set (res @ br). error (snd p) = None" using Cons.prems(2) ok by auto
    moreover have "succ + length b = length (res @ br)" using Cons.prems(3) l by simp
    ultimately show ?thesis using Cons.IH[OF _ _ _ run] by blast
  next
    assume "\<exists>pre e post. br = pre @ e # post \<and> (\<forall>p \<in> set pre. error (snd p) = None) \<and> error (snd e) \<noteq> None"
    then obtain pre e post where sp: "br = pre @ e # post" "\<forall>p \<in> set pre. error (snd p) = None"
      "error (snd e) \<noteq> None" by blast
    have r: "r = \<lparr>succeeded = succ + length pre, failed = 0 + 1, results = res @ pre @ [e]\<rparr>"
      using runBatches_stop[OF d br[unfolded sp(1)] sp(2,3), of bs ex succ 0] Cons.prems(4) by simp
    have "distinct (map fst res @ map fst (pre @ e # post))" using d k sp(1) by simp
    then have dist: "distinct (map fst (res @ pre @ [e]))" by auto
    have f1: "filter (\<lambda>p. error (snd p) \<noteq> None) (res @ pre @ [e]) = [e]"
      using Cons.prems(2) sp(2,3) by (simp add: filter_empty_conv)
    have f2: "filter (\<lambda>p. error (snd p) = None) (res @ pre @ [e]) = res @ pre"
      using Cons.prems(2) sp(2,3) by (simp add: filter_id_conv)
    show ?thesis unfolding r using dist f1 f2 Cons.prems(3) by simp
  qed
qed

text \<open>
  Claim C9. Whenever \<^verbatim>\<open>execute\<close> returns, the keys of the returned results map are
  distinct, the succeeded and failed counts add up to the number of its entries, the
  failed count is the number of entries carrying an error and the succeeded count the
  number of entries carrying none.
\<close>

theorem execute_counts:
  assumes "execute config reg plan context s = (Inr r, s')"
  shows "distinct (map fst (results r))
       \<and> succeeded r + failed r = length (results r)
       \<and> failed r = length (filter (\<lambda>p. error (snd p) \<noteq> None) (results r))
       \<and> succeeded r = length (filter (\<lambda>p. error (snd p) = None) (results r))"
proof -
  obtain B where B: "buildExecutionOrder reg (calls plan) = Inr B"
    using assms by (cases "buildExecutionOrder reg (calls plan)") (auto simp: execute_def)
  then have run: "runBatches config reg context B ([], [], 0, 0) s = (r, s')"
    using assms by (auto simp: execute_def split: prod.splits)
  have "distinct (map fst ([] :: 'a Results) @ batchIds B)"
    using buildExecutionOrder_batches(1)[OF B] by simp
  then show ?thesis using runBatches_counts[OF _ _ _ run] by simp
qed

theorem execute_counts_witness:
  "execute defaultConfig chain chainPlan () state0 = (Inr chainResult, chainFinal)
   \<and> succeeded chainResult = 2 \<and> failed chainResult = 1 \<and> length (results chainResult) = 3
   \<and> distinct (map fst (results chainResult))
   \<and> succeeded chainResult + failed chainResult = length (results chainResult)
   \<and> failed chainResult = length (filter (\<lambda>p. error (snd p) \<noteq> None) (results chainResult))
   \<and> succeeded chainResult = length (filter (\<lambda>p. error (snd p) = None) (results chainResult))"
  using execute_counts[OF chain_run] chain_run by (simp add: chainResult_def)


subsection \<open>A failure inside a batch\<close>

text \<open>
  Claim C3 at a concrete plan. Two independent calls form one batch; the first fails,
  the second succeeds. Both handlers are invoked, and \<^verbatim>\<open>execute\<close> returns at the first
  failed entry of the merge loop: the outcome of the second call is not in the returned
  map, is not counted, and the call is not compensated.
\<close>

theorem siblings_run:
  "execute defaultConfig siblings siblingsPlan () state0 =
     (Inr \<lparr>succeeded = 0, failed = 1,
            results = [(''c1'', \<lparr>result = None, error = Some (HandlerError ''Permanent failure'')\<rparr>)]\<rparr>,
      \<lparr>world = 2, trace = [Invoked ''c1'' [], Invoked ''c2'' []]\<rparr>)"
  unfolding execute_def siblings_order
  unfolding siblings_value
  by (simp add: exec_eval call_def step_def state0_def failing_def returning_def)


subsection \<open>Compensation\<close>





subsection \<open>Dependency order\<close>

lemma trancl_closed:
  assumes "\<forall>x \<in> D. set (dp x) \<subseteq> D" and "set (dp k) \<subseteq> D" and "(k, d) \<in> {(a, b). b \<in> set (dp a)}\<^sup>+"
  shows "d \<in> D"
  using assms(3)
proof (induction rule: trancl_induct)
  case (base y)
  then show ?case using assms(2) by auto
next
  case (step y z)
  then show ?case using assms(1) by auto
qed

lemma succeededIn_all_ok:
  "\<forall>p \<in> set res. error (snd p) = None \<Longrightarrow> d \<in> fst ` set res \<Longrightarrow> succeededIn res d"
proof -
  assume ok: "\<forall>p \<in> set res. error (snd p) = None" and "d \<in> fst ` set res"
  then obtain rec where r: "map_of res d = Some rec"
    by (cases "map_of res d") (auto simp: map_of_eq_None_iff)
  then have "(d, rec) \<in> set res" by (rule map_of_SomeD)
  then show ?thesis using ok r by (auto simp: succeededIn_def)
qed

lemma runBatches_order:
  assumes "distinct (map fst res @ batchIds bs)" and "\<forall>p \<in> set res. error (snd p) = None"
    and "\<forall>x \<in> fst ` set res. set (dp x) \<subseteq> fst ` set res"
    and "depsOrdered dp (fst ` set res) bs"
    and "runBatches config reg context bs (res, ex, succ, fl) s = (r, s')"
  shows "\<exists>evs. trace s' = trace s @ evs
       \<and> (\<forall>k prev d. Invoked k prev \<in> set evs \<longrightarrow> (k, d) \<in> {(a, b). b \<in> set (dp a)}\<^sup>+
             \<longrightarrow> succeededIn prev d)"
  using assms
proof (induction bs arbitrary: res ex succ s)
  case Nil
  then show ?case by auto
next
  case (Cons b bs)
  let ?ctx = "\<lparr>appContext = context, previousResults = res\<rparr>"
  let ?D = "fst ` set res"
  have d: "distinct (map fst res @ map callId b)" using Cons.prems(1) by (auto simp: batchIds_Cons)
  obtain br s1 where br: "runAll config reg ?ctx b s = (br, s1)"
    by (cases "runAll config reg ?ctx b s")
  have k: "map fst br = map callId b" using runAll_keys[of config reg ?ctx b s] br by simp
  obtain evs where evs: "trace s1 = trace s @ evs" "handlerEvents (callId ` set b) res evs"
    using runAll_trace[of config reg ?ctx b s] br by auto
  have bd: "\<forall>c \<in> set b. set (dp (callId c)) \<subseteq> ?D" and ord': "depsOrdered dp (?D \<union> callId ` set b) bs"
    using Cons.prems(4) by auto
  have e1: "succeededIn prev d'"
    if "Invoked k' prev \<in> set evs" "(k', d') \<in> {(a, b). b \<in> set (dp a)}\<^sup>+" for k' prev d'
  proof -
    have "prev = res" "k' \<in> callId ` set b" using that(1) evs(2) by (auto simp: handlerEvents_def)
    then have "set (dp k') \<subseteq> ?D" using bd by auto
    then have "d' \<in> ?D" using trancl_closed[OF Cons.prems(3) _ that(2)] by simp
    then show ?thesis using succeededIn_all_ok[OF Cons.prems(2)] \<open>prev = res\<close> by simp
  qed
  from first_error_split[of br] show ?case
  proof
    assume ok: "\<forall>p \<in> set br. error (snd p) = None"
    have run: "runBatches config reg context bs (res @ br, ex @ b, succ + length b, fl) s1 = (r, s')"
      using runBatches_continue[OF d br ok] Cons.prems(5) by simp
    have D': "fst ` set (res @ br) = ?D \<union> callId ` set b"
    proof -
      have "set (map fst br) = set (map callId b)" using k by simp
      then show ?thesis by (simp add: image_Un)
    qed
    have p1: "distinct (map fst (res @ br) @ batchIds bs)"
      using Cons.prems(1) k by (simp add: batchIds_Cons)
    have p2: "\<forall>p \<in> set (res @ br). error (snd p) = None" using Cons.prems(2) ok by auto
    have p3: "\<forall>x \<in> fst ` set (res @ br). set (dp x) \<subseteq> fst ` set (res @ br)"
      unfolding D' using Cons.prems(3) bd by auto
    have p4: "depsOrdered dp (fst ` set (res @ br)) bs" unfolding D' by (rule ord')
    obtain evs2 where evs2: "trace s' = trace s1 @ evs2"
      "\<forall>k prev d. Invoked k prev \<in> set evs2 \<longrightarrow> (k, d) \<in> {(a, b). b \<in> set (dp a)}\<^sup>+ \<longrightarrow> succeededIn prev d"
      using Cons.IH[OF p1 p2 p3 p4 run] by blast
    have "trace s' = trace s @ (evs @ evs2)" using evs(1) evs2(1) by simp
    moreover have "\<forall>k prev d. Invoked k prev \<in> set (evs @ evs2) \<longrightarrow> (k, d) \<in> {(a, b). b \<in> set (dp a)}\<^sup>+
        \<longrightarrow> succeededIn prev d"
      using e1 evs2(2) by auto
    ultimately show ?thesis by blast
  next
    assume "\<exists>pre e post. br = pre @ e # post \<and> (\<forall>p \<in> set pre. error (snd p) = None) \<and> error (snd e) \<noteq> None"
    then obtain pre e post where sp: "br = pre @ e # post" "\<forall>p \<in> set pre. error (snd p) = None"
      "error (snd e) \<noteq> None" by blast
    let ?res = "res @ pre @ [e]"
    let ?ex = "ex @ take (Suc (length pre)) b"
    have out: "s' = (if enableCompensation config
             then compensate' reg ?ex ?res \<lparr>appContext = context, previousResults = ?res\<rparr> s1 else s1)"
      using runBatches_stop[OF d br[unfolded sp(1)] sp(2,3), of bs ex succ fl] Cons.prems(5) by auto
    obtain cev where cev:
        "trace (compensateEach reg ?res \<lparr>appContext = context, previousResults = ?res\<rparr> (rev ?ex) s1)
           = trace s1 @ cev" "compensationEvents cev"
      using compensateEach_trace[of reg ?res "\<lparr>appContext = context, previousResults = ?res\<rparr>" "rev ?ex" s1]
      by blast
    obtain evs2 where evs2: "trace s' = trace s1 @ evs2" "compensationEvents evs2"
    proof (cases "enableCompensation config")
      case True
      then have "trace s' = trace s1 @ cev" using cev(1) out by (simp add: compensate'_def)
      then show ?thesis using that cev(2) by blast
    next
      case False
      then have "trace s' = trace s1 @ []" using out by simp
      moreover have "compensationEvents []" by (simp add: compensationEvents_def)
      ultimately show ?thesis using that by blast
    qed
    have no: "Invoked k' prev \<notin> set evs2" for k' prev
      using evs2(2) by (auto simp: compensationEvents_def)
    have "trace s' = trace s @ (evs @ evs2)" using evs(1) evs2(1) by simp
    moreover have "\<forall>k prev d. Invoked k prev \<in> set (evs @ evs2) \<longrightarrow> (k, d) \<in> {(a, b). b \<in> set (dp a)}\<^sup>+
        \<longrightarrow> succeededIn prev d"
      using e1 no by auto
    ultimately show ?thesis by blast
  qed
qed

text \<open>
  Claim C1. Every handler invocation of an execution happens with the shared results
  map holding an entry without error for every call the invoked call depends on,
  directly or transitively, in the call-level dependency graph. This holds for every
  plan: where the graph has a cycle, or a call depends on an identifier that is not a
  call of the plan, no handler is invoked at all.
\<close>

theorem handlers_after_dependencies:
  assumes "execute config reg plan context s = (out, s')"
  shows "\<exists>evs. trace s' = trace s @ evs
       \<and> (\<forall>k prev d. Invoked k prev \<in> set evs \<longrightarrow> (k, d) \<in> (dependsRel reg (calls plan))\<^sup>+
             \<longrightarrow> succeededIn prev d)"
proof (cases "buildExecutionOrder reg (calls plan)")
  case (Inl e)
  then have "s' = s" using assms by (auto simp: execute_def)
  then show ?thesis by simp
next
  case (Inr B)
  then obtain r where run: "runBatches config reg context B ([], [], 0, 0) s = (r, s')"
    using assms by (auto simp: execute_def split: prod.splits)
  have d: "distinct (map fst ([] :: 'a Results) @ batchIds B)"
    using buildExecutionOrder_batches(1)[OF Inr] by simp
  have o: "depsOrdered (depsOf reg (calls plan)) (fst ` set ([] :: 'a Results)) B"
    using buildExecutionOrder_batches(3)[OF Inr] by simp
  show ?thesis
    using runBatches_order[OF d _ _ o run] by (simp add: dependsRel_def)
qed

theorem handlers_after_dependencies_witness:
  "execute defaultConfig chain chainPlan () state0 = (Inr chainResult, chainFinal)
   \<and> Invoked ''call3'' [(''call1'', \<lparr>result = Some (), error = None\<rparr>),
                        (''call2'', \<lparr>result = Some (), error = None\<rparr>)] \<in> set (trace chainFinal)
   \<and> (''call3'', ''call1'') \<in> (dependsRel chain (calls chainPlan))\<^sup>+
   \<and> succeededIn [(''call1'', \<lparr>result = Some (), error = None\<rparr>),
                   (''call2'', \<lparr>result = Some (), error = None\<rparr>)] ''call1''"
proof -
  let ?prev = "[(''call1'', \<lparr>result = Some (), error = None :: ExecError option\<rparr>),
                (''call2'', \<lparr>result = Some (), error = None\<rparr>)]"
  obtain evs where evs: "trace chainFinal = trace state0 @ evs"
    "\<forall>k prev d. Invoked k prev \<in> set evs \<longrightarrow> (k, d) \<in> (dependsRel chain (calls chainPlan))\<^sup>+
        \<longrightarrow> succeededIn prev d"
    using handlers_after_dependencies[OF chain_run] by blast
  have i: "Invoked ''call3'' ?prev \<in> set (trace chainFinal)" by (simp add: chainFinal_def)
  then have i': "Invoked ''call3'' ?prev \<in> set evs" using evs(1) by (simp add: state0_def)
  have "(''call3'', ''call2'') \<in> dependsRel chain (calls chainPlan)"
    and "(''call2'', ''call1'') \<in> dependsRel chain (calls chainPlan)"
    by (simp_all add: dependsRel_def chain_deps)
  then have t: "(''call3'', ''call1'') \<in> (dependsRel chain (calls chainPlan))\<^sup>+"
    by (rule trancl_into_trancl[OF r_into_trancl])
  have "succeededIn ?prev ''call1''" using evs(2) i' t by blast
  then show ?thesis using chain_run i t by simp
qed


end
